theory Spec2Isabelle
  imports Main "HOL-Library.Word"
begin

section \<open>Bytes, slices and errors\<close>

text \<open>
  A Go \<^verbatim>\<open>string\<close> is a sequence of bytes: it is a \<^typ>\<open>string\<close> here, and a byte is
  read as a number with \<^const>\<open>of_char\<close>. The slice \<^verbatim>\<open>val[a:b]\<close> is \<open>slice val a b\<close>; the
  source only slices with \<open>a \<le> b \<le> len(val)\<close>.
\<close>

definition slice :: "string \<Rightarrow> nat \<Rightarrow> nat \<Rightarrow> string" where
  "slice val a b = take (b - a) (drop a val)"

text \<open>
  The error values of \<^verbatim>\<open>strconv\<close>: a \<^verbatim>\<open>*NumError\<close> holds the failing function, the input
  and one of the two sentinel errors.
\<close>

datatype strconv_err = ErrSyntax | ErrRange

datatype NumError = NumError (Func: string) (Num: string) (Err: strconv_err)

text \<open>
  The error values of the package. \<open>Errorf_w e ne\<close> is the value of
  \<^verbatim>\<open>fmt.Errorf("%w: %v", e, ne)\<close>; \<open>PanicIndexOutOfRange\<close> stands for the run-time panic of
  an index expression out of range.
\<close>

datatype error =
    ErrMaxAgeDeltaSeconds
  | ErrSMaxAgeDeltaSeconds
  | ErrMaxStaleDeltaSeconds
  | ErrMinFreshDeltaSeconds
  | ErrStaleIfErrorDeltaSeconds
  | ErrStaleWhileRevalidateDeltaSeconds
  | ErrPublicDirectiveValue
  | ErrNoCacheDirectiveValue
  | ErrNoStoreDirectiveValue
  | ErrImmutableDirectiveValue
  | ErrNoTransformDirectiveValue
  | ErrOnlyIfCachedDirectiveValue
  | ErrMustRevalidateDirectiveValue
  | ErrProxyRevalidateDirectiveValue
  | ErrMissingClosingQuote
  | Errorf_w error NumError
  | PanicIndexOutOfRange

section \<open>Lexical matters of HTTP\<close>

definition isWhiteSpace :: "char \<Rightarrow> bool" where
  "isWhiteSpace c \<longleftrightarrow> c = CHR 0x09 \<or> c = CHR '' ''"

definition isSeparator :: "char \<Rightarrow> bool" where
  "isSeparator c \<longleftrightarrow>
     c \<in> set [CHR ''('', CHR '')'', CHR ''<'', CHR ''>'', CHR ''@'', CHR '','', CHR '';'',
               CHR '':'', CHR 0x5C, CHR 0x22, CHR ''/'', CHR ''['', CHR '']'', CHR ''?'',
               CHR ''='', CHR ''{'', CHR ''}'', CHR '' '', CHR 0x09]"

definition isCtl :: "char \<Rightarrow> bool" where
  "isCtl c \<longleftrightarrow> of_char c \<le> (31 :: nat) \<or> of_char c = (127 :: nat)"

definition isChar :: "char \<Rightarrow> bool" where
  "isChar c \<longleftrightarrow> of_char c \<le> (127 :: nat)"

definition isAnyText :: "char \<Rightarrow> bool" where
  "isAnyText c \<longleftrightarrow> \<not> isCtl c"

definition isQdText :: "char \<Rightarrow> bool" where
  "isQdText c \<longleftrightarrow> isAnyText c \<and> c \<noteq> CHR 0x22"

definition isToken :: "char \<Rightarrow> bool" where
  "isToken c \<longleftrightarrow> isChar c \<and> \<not> isCtl c \<and> \<not> isSeparator c"

section \<open>Header names\<close>

definition HeaderMaxAge :: string where "HeaderMaxAge = ''max-age''"
definition HeaderNoCache :: string where "HeaderNoCache = ''no-cache''"
definition HeaderNoStore :: string where "HeaderNoStore = ''no-store''"
definition HeaderMaxStale :: string where "HeaderMaxStale = ''max-stale''"
definition HeaderMinFresh :: string where "HeaderMinFresh = ''min-fresh''"
definition HeaderNoTransform :: string where "HeaderNoTransform = ''no-transform''"
definition HeaderOnlyIfCached :: string where "HeaderOnlyIfCached = ''only-if-cached''"
definition HeaderPublic :: string where "HeaderPublic = ''public''"
definition HeaderPrivate :: string where "HeaderPrivate = ''private''"
definition HeaderSMaxAge :: string where "HeaderSMaxAge = ''s-maxage''"
definition HeaderImmutable :: string where "HeaderImmutable = ''immutable''"
definition HeaderStaleIfError :: string where "HeaderStaleIfError = ''stale-if-error''"
definition HeaderMustRevalidate :: string where "HeaderMustRevalidate = ''must-revalidate''"
definition HeaderProxyRevalidate :: string where "HeaderProxyRevalidate = ''proxy-revalidate''"
definition HeaderStaleWhileRevalidate :: string where
  "HeaderStaleWhileRevalidate = ''stale-while-revalidate''"

lemmas Header_defs =
  HeaderMaxAge_def HeaderNoCache_def HeaderNoStore_def HeaderMaxStale_def HeaderMinFresh_def
  HeaderNoTransform_def HeaderOnlyIfCached_def HeaderPublic_def HeaderPrivate_def
  HeaderSMaxAge_def HeaderImmutable_def HeaderStaleIfError_def HeaderMustRevalidate_def
  HeaderProxyRevalidate_def HeaderStaleWhileRevalidate_def

section \<open>Library functions the package calls\<close>

text \<open>
  \<^verbatim>\<open>strings.ToLower\<close>. On a string of ASCII bytes it adds \<^verbatim>\<open>'a' - 'A'\<close> to each upper-case
  letter. A string with a byte above 127 goes through \<^verbatim>\<open>strings.Map(unicode.ToLower, s)\<close>,
  which writes the replacement rune U+FFFD (the bytes EF BF BD) for every byte that does not
  begin a valid UTF-8 sequence. The tokenizer only passes strings whose bytes after the first
  are token bytes, hence ASCII, so that a byte above 127 in them never begins a valid sequence;
  this is the case modelled.
\<close>

definition lower_byte :: "char \<Rightarrow> char" where
  "lower_byte c =
     (if (65 :: nat) \<le> of_char c \<and> of_char c \<le> (90 :: nat)
      then char_of (of_char c + (32 :: nat)) else c)"

definition ToLower :: "string \<Rightarrow> string" where
  "ToLower s =
     concat (map (\<lambda>c. if (128 :: nat) \<le> of_char c then [CHR 0xEF, CHR 0xBF, CHR 0xBD]
                        else [lower_byte c]) s)"

text \<open>
  \<^verbatim>\<open>strconv.ParseUint(s, 10, 32)\<close>: the accumulator \<open>n\<close> is a \<^verbatim>\<open>uint64\<close>, \<open>cutoff\<close> is
  \<^verbatim>\<open>maxUint64/10 + 1\<close> and \<open>maxVal\<close> is \<^verbatim>\<open>1<<32 - 1\<close>. The loop returns a range error at the
  digit where the value leaves the range, before it looks at the bytes after it. A byte that
  is no decimal digit is a syntax error: a letter is a digit of value 10 or more, which the
  base excludes, and any other byte is no digit at all.
\<close>

definition cutoff :: "64 word" where
  "cutoff = 1844674407370955162"

definition maxVal :: "64 word" where
  "maxVal = 4294967295"

fun ParseUint_loop :: "string \<Rightarrow> 64 word \<Rightarrow> string \<Rightarrow> 64 word \<times> NumError option" where
  "ParseUint_loop s0 n [] = (n, None)"
| "ParseUint_loop s0 n (c # cs) =
     (if (48 :: nat) \<le> of_char c \<and> of_char c \<le> (57 :: nat) then
        (let d = (of_char c - 48 :: nat) in
         if 10 \<le> d then (0, Some (NumError ''ParseUint'' s0 ErrSyntax))
         else if cutoff \<le> n then (maxVal, Some (NumError ''ParseUint'' s0 ErrRange))
         else
           (let n' = n * 10; n1 = n' + word_of_nat d in
            if n1 < n' \<or> maxVal < n1 then (maxVal, Some (NumError ''ParseUint'' s0 ErrRange))
            else ParseUint_loop s0 n1 cs))
      else (0, Some (NumError ''ParseUint'' s0 ErrSyntax)))"

definition ParseUint :: "string \<Rightarrow> 64 word \<times> NumError option" where
  "ParseUint s = (if s = [] then (0, Some (NumError ''ParseUint'' s ErrSyntax))
                  else ParseUint_loop s 0 s)"

text \<open>\<^verbatim>\<open>strings.Split(s, ",")\<close>: the pieces between the commas; one empty piece for \<open>''''\<close>.\<close>

fun Split :: "string \<Rightarrow> string list" where
  "Split [] = [[]]"
| "Split (c # cs) =
     (if c = CHR '','' then [] # Split cs
      else (case Split cs of p # ps \<Rightarrow> (c # p) # ps | [] \<Rightarrow> [[c]]))"

text \<open>\<^verbatim>\<open>textproto.TrimString\<close>: drops leading and trailing space, tab, LF and CR.\<close>

definition isASCIISpace :: "char \<Rightarrow> bool" where
  "isASCIISpace b \<longleftrightarrow> b = CHR '' '' \<or> b = CHR 0x09 \<or> b = CHR 0x0A \<or> b = CHR 0x0D"

definition TrimString :: "string \<Rightarrow> string" where
  "TrimString s = rev (dropWhile isASCIISpace (rev (dropWhile isASCIISpace s)))"

text \<open>
  \<^verbatim>\<open>http.CanonicalHeaderKey\<close>: a string with a byte that is not a header field byte is
  returned as it is; in any other string the first letter and every letter after a hyphen
  become upper case and the other letters lower case.
\<close>

definition validHeaderFieldByte :: "char \<Rightarrow> bool" where
  "validHeaderFieldByte c \<longleftrightarrow>
     ((48 :: nat) \<le> of_char c \<and> of_char c \<le> (57 :: nat)) \<or>
     ((97 :: nat) \<le> of_char c \<and> of_char c \<le> (122 :: nat)) \<or>
     ((65 :: nat) \<le> of_char c \<and> of_char c \<le> (90 :: nat)) \<or>
     c \<in> set [CHR ''!'', CHR ''#'', CHR ''$'', CHR ''%'', CHR ''&'', CHR 0x27, CHR ''*'',
               CHR ''+'', CHR ''-'', CHR ''.'', CHR ''^'', CHR ''_'', CHR 0x60, CHR ''|'',
               CHR ''~'']"

definition upper_byte :: "char \<Rightarrow> char" where
  "upper_byte c =
     (if (97 :: nat) \<le> of_char c \<and> of_char c \<le> (122 :: nat)
      then char_of (of_char c - (32 :: nat)) else c)"

fun canonicalMIMEHeaderKey :: "bool \<Rightarrow> string \<Rightarrow> string" where
  "canonicalMIMEHeaderKey upper [] = []"
| "canonicalMIMEHeaderKey upper (c # cs) =
     (let c' = (if upper then upper_byte c else lower_byte c)
      in c' # canonicalMIMEHeaderKey (c' = CHR ''-'') cs)"

definition CanonicalHeaderKey :: "string \<Rightarrow> string" where
  "CanonicalHeaderKey s =
     (if \<forall>c \<in> set s. validHeaderFieldByte c then canonicalMIMEHeaderKey True s else s)"

section \<open>Quoted strings\<close>

definition unquotePair :: "char \<Rightarrow> char" where
  "unquotePair b =
     (if b = CHR ''a'' then CHR 0x07
      else if b = CHR ''b'' then CHR 0x08
      else if b = CHR ''f'' then CHR 0x0C
      else if b = CHR ''n'' then CHR 0x0A
      else if b = CHR ''r'' then CHR 0x0D
      else if b = CHR ''t'' then CHR 0x09
      else if b = CHR ''v'' then CHR 0x0B
      else if b = CHR 0x5C then CHR 0x5C
      else if b = CHR 0x27 then CHR 0x27
      else if b = CHR 0x22 then CHR 0x22
      else CHR ''?'')"

text \<open>
  The loop of \<^verbatim>\<open>parseQuotedString\<close>, from position \<open>i\<close>; \<open>buf\<close> is \<^verbatim>\<open>buf[0:bufIdx]\<close>, the
  bytes written so far. The counter \<^verbatim>\<open>eat\<close> of the source is never read and is left out.
\<close>

function parseQuotedString_loop :: "string \<Rightarrow> nat \<Rightarrow> string \<Rightarrow> int \<times> string" where
  "parseQuotedString_loop raw i buf =
     (if i < length raw then
        (if raw ! i = CHR 0x22 then (int (i + 1), buf)
         else if raw ! i = CHR 0x5C then
           (if length raw < i + 2 then (- 1, [])
            else parseQuotedString_loop raw (i + 2) (buf @ [unquotePair (raw ! (i + 1))]))
         else parseQuotedString_loop raw (i + 1)
                (buf @ [if isQdText (raw ! i) then raw ! i else CHR ''?'']))
      else (- 1, []))"
  by pat_completeness auto
termination
  by (relation "measure (\<lambda>(raw, i, buf). length raw - i)") auto

declare parseQuotedString_loop.simps [simp del]

text \<open>Reading \<^verbatim>\<open>raw[0]\<close> of an empty string panics.\<close>

definition parseQuotedString :: "string \<Rightarrow> error + int \<times> string" where
  "parseQuotedString raw =
     (if raw = [] then Inl PanicIndexOutOfRange
      else if raw ! 0 \<noteq> CHR 0x22 then Inr (- 1, [])
      else Inr (parseQuotedString_loop raw 1 []))"

section \<open>The tokenizer\<close>

text \<open>The sink: the two methods of the interface \<^verbatim>\<open>directive\<close>, over a state \<open>'d\<close>
  that a method returns updated, or an error.\<close>

datatype 'd directive =
  Directive (setToken: "'d \<Rightarrow> string \<Rightarrow> error + 'd")
            (setPair: "'d \<Rightarrow> string \<Rightarrow> string \<Rightarrow> error + 'd")

definition tokenRequireExtensionFields :: "string \<Rightarrow> bool" where
  "tokenRequireExtensionFields token \<longleftrightarrow> token = ''no-cache'' \<or> token = ''private''"

text \<open>The loop that finds the end of the token.\<close>

function scanToken :: "string \<Rightarrow> nat \<Rightarrow> nat" where
  "scanToken val tokenEnd =
     (if tokenEnd < length val then
        (if \<not> isToken (val ! tokenEnd) then tokenEnd else scanToken val (tokenEnd + 1))
      else tokenEnd)"
  by pat_completeness auto
termination
  by (relation "measure (\<lambda>(val, tokenEnd). length val - tokenEnd)") auto

declare scanToken.simps [simp del]

text \<open>The loop that finds the end of an unquoted value.\<close>

function scanValue :: "string \<Rightarrow> bool \<Rightarrow> nat \<Rightarrow> nat" where
  "scanValue val requireExtensionField valueEnd =
     (if valueEnd < length val then
        (if isWhiteSpace (val ! valueEnd) \<or>
            (\<not> requireExtensionField \<and> val ! valueEnd = CHR '','')
         then valueEnd
         else scanValue val requireExtensionField (valueEnd + 1))
      else valueEnd)"
  by pat_completeness auto
termination
  by (relation "measure (\<lambda>(val, r, valueEnd). length val - valueEnd)") auto

declare scanValue.simps [simp del]

text \<open>
  One iteration of the loop of \<^verbatim>\<open>parseCacheControlv\<close> at \<open>index < len(val)\<close>: the sink's new
  state and the new index, or the error returned.
\<close>

definition parseCacheControlv_body ::
  "'d directive \<Rightarrow> 'd \<Rightarrow> string \<Rightarrow> nat \<Rightarrow> error + 'd \<times> nat" where
  "parseCacheControlv_body ops d val index =
     (let vl = length val in
      if isWhiteSpace (val ! index) \<or> val ! index = CHR '','' then Inr (d, index + 1)
      else
        (let tokenEnd = scanToken val (index + 1);
             token = ToLower (slice val index tokenEnd);
             requireExtensionField = tokenRequireExtensionFields token
         in
         if tokenEnd + 1 < vl \<and> val ! tokenEnd = CHR ''='' then
           (let valueStart = tokenEnd + 1 in
            if valueStart < vl \<and> val ! valueStart = CHR 0x22 then
              (case parseQuotedString (drop valueStart val) of
                 Inl e \<Rightarrow> Inl e
               | Inr (eaten, value) \<Rightarrow>
                   if eaten = - 1 then Inl ErrMissingClosingQuote
                   else (case setPair ops d token value of
                           Inl err \<Rightarrow> Inl err
                         | Inr d' \<Rightarrow> Inr (d', nat (int valueStart + eaten))))
            else
              (let valueEnd = scanValue val requireExtensionField valueStart;
                   value0 = slice val valueStart valueEnd;
                   value = (if value0 \<noteq> [] \<and> last value0 = CHR '','' then butlast value0
                            else value0)
               in case setPair ops d token value of
                    Inl err \<Rightarrow> Inl err
                  | Inr d' \<Rightarrow> Inr (d', valueEnd)))
         else
           (if token \<noteq> '','' then
              (case setToken ops d token of
                 Inl err \<Rightarrow> Inl err
               | Inr d' \<Rightarrow> Inr (d', tokenEnd))
            else Inr (d, tokenEnd))))"

lemma scanToken_ge: "i \<le> scanToken val i"
proof (induction val i rule: scanToken.induct)
  case (1 val tokenEnd)
  show ?case
  proof (cases "tokenEnd < length val \<and> isToken (val ! tokenEnd)")
    case True
    with 1 have "tokenEnd + 1 \<le> scanToken val (tokenEnd + 1)" by simp
    moreover from True have "scanToken val tokenEnd = scanToken val (tokenEnd + 1)"
      using scanToken.simps [of val tokenEnd] by simp
    ultimately show ?thesis by simp
  next
    case False
    then have "scanToken val tokenEnd = tokenEnd"
      using scanToken.simps [of val tokenEnd] by auto
    then show ?thesis by simp
  qed
qed

lemma scanValue_ge: "i \<le> scanValue val r i"
proof (induction val r i rule: scanValue.induct)
  case (1 val r valueEnd)
  let ?stop = "isWhiteSpace (val ! valueEnd) \<or> (\<not> r \<and> val ! valueEnd = CHR '','')"
  show ?case
  proof (cases "valueEnd < length val \<and> \<not> ?stop")
    case True
    with 1 have "valueEnd + 1 \<le> scanValue val r (valueEnd + 1)" by simp
    moreover from True have "scanValue val r valueEnd = scanValue val r (valueEnd + 1)"
      using scanValue.simps [of val r valueEnd] by auto
    ultimately show ?thesis by simp
  next
    case False
    then have "scanValue val r valueEnd = valueEnd"
      using scanValue.simps [of val r valueEnd] by auto
    then show ?thesis by simp
  qed
qed

lemma parseQuotedString_loop_ge:
  "parseQuotedString_loop raw i buf = (eaten, v) \<Longrightarrow> eaten = - 1 \<or> int i < eaten"
proof (induction raw i buf rule: parseQuotedString_loop.induct)
  case (1 raw i buf)
  show ?case
  proof (cases "i < length raw")
    case False
    with "1.prems" show ?thesis by (subst (asm) parseQuotedString_loop.simps) simp
  next
    case inb: True
    show ?thesis
    proof (cases "raw ! i = CHR 0x22")
      case True
      with inb "1.prems" show ?thesis by (subst (asm) parseQuotedString_loop.simps) auto
    next
      case nq: False
      show ?thesis
      proof (cases "raw ! i = CHR 0x5C")
        case True
        show ?thesis
        proof (cases "length raw < i + 2")
          case True
          with inb nq \<open>raw ! i = CHR 0x5C\<close> "1.prems" show ?thesis
            by (subst (asm) parseQuotedString_loop.simps) simp
        next
          case False
          with inb nq \<open>raw ! i = CHR 0x5C\<close> "1.prems"
          have "parseQuotedString_loop raw (i + 2) (buf @ [unquotePair (raw ! (i + 1))]) = (eaten, v)"
            by (subst (asm) parseQuotedString_loop.simps) simp
          with "1.IH"(1) inb nq \<open>raw ! i = CHR 0x5C\<close> False
          have "eaten = - 1 \<or> int (i + 2) < eaten" by simp
          then show ?thesis by auto
        qed
      next
        case False
        with inb nq "1.prems"
        have "parseQuotedString_loop raw (i + 1)
                (buf @ [if isQdText (raw ! i) then raw ! i else CHR ''?'']) = (eaten, v)"
          by (subst (asm) parseQuotedString_loop.simps) simp
        with "1.IH"(2) inb nq False
        have "eaten = - 1 \<or> int (i + 1) < eaten" by simp
        then show ?thesis by auto
      qed
    qed
  qed
qed

lemma parseCacheControlv_body_advances:
  assumes "parseCacheControlv_body ops d val index = Inr (d', index')"
  shows "index < index'"
proof -
  have tok: "index < scanToken val (Suc index)"
    using scanToken_ge [of "Suc index" val] by simp
  have vale: "index < scanValue val r (Suc (scanToken val (Suc index)))" for r
    using tok scanValue_ge [of "Suc (scanToken val (Suc index))" val r] by simp
  have quoted: "eaten = - 1 \<or> 1 < eaten" if "parseQuotedString raw = Inr (eaten, v)"
    for raw eaten v
    using that parseQuotedString_loop_ge [of raw 1 "[]" eaten v]
    by (auto simp: parseQuotedString_def split: if_splits)
  from assms show ?thesis
    unfolding parseCacheControlv_body_def Let_def
    using tok
    by (auto simp: vale split: if_splits sum.splits prod.splits dest!: quoted)
qed

text \<open>The loop of \<^verbatim>\<open>parseCacheControlv\<close>, from \<open>index\<close> with the sink in state \<open>d\<close>.\<close>

function parseCacheControlv_loop :: "'d directive \<Rightarrow> 'd \<Rightarrow> string \<Rightarrow> nat \<Rightarrow> error + 'd" where
  "parseCacheControlv_loop ops d val index =
     (if index < length val then
        (case parseCacheControlv_body ops d val index of
           Inl err \<Rightarrow> Inl err
         | Inr (d', index') \<Rightarrow> parseCacheControlv_loop ops d' val index')
      else Inr d)"
  by pat_completeness auto
termination
proof (relation "measure (\<lambda>(ops, d, val, index). length val - index)")
  show "wf (measure (\<lambda>(ops, d, val, index). length val - index))" by simp
next
  fix ops :: "'d directive" and d d' :: 'd and val :: string and index index' :: nat
    and r :: "'d \<times> nat"
  assume "index < length val" and "parseCacheControlv_body ops d val index = Inr r"
    and "(d', index') = r"
  then have "index < index'"
    using parseCacheControlv_body_advances [of ops d val index d' index'] by simp
  with \<open>index < length val\<close>
  show "((ops, d', val, index'), (ops, d, val, index))
          \<in> measure (\<lambda>(ops, d, val, index). length val - index)"
    by simp
qed

declare parseCacheControlv_loop.simps [simp del]

definition parseCacheControlv :: "'d directive \<Rightarrow> 'd \<Rightarrow> string \<Rightarrow> error + 'd" where
  "parseCacheControlv ops d val = parseCacheControlv_loop ops d val 0"

section \<open>Delta seconds\<close>

text \<open>\<^verbatim>\<open>math.MaxInt32\<close>, at the two types the source uses it at.\<close>

definition MaxInt32 :: "'a::len word" where
  "MaxInt32 = 2147483647"

text \<open>
  \<^verbatim>\<open>validateDeltaSeconds\<close> returns an \<^verbatim>\<open>int32\<close> and an error; \<^verbatim>\<open>int32(deltaSec)\<close> keeps the
  low 32 bits of the \<^verbatim>\<open>uint64\<close>.
\<close>

definition validateDeltaSeconds :: "string \<Rightarrow> 32 word \<times> NumError option" where
  "validateDeltaSeconds delta =
     (case ParseUint delta of
        (deltaSec, Some err) \<Rightarrow>
          (case Err err of ErrRange \<Rightarrow> (MaxInt32, None) | ErrSyntax \<Rightarrow> (- 1, Some err))
      | (deltaSec, None) \<Rightarrow>
          if MaxInt32 < deltaSec then (MaxInt32, None) else (ucast deltaSec, None))"

section \<open>The request directive\<close>

record RequestCacheDirective =
  MaxAge :: "32 word"
  MaxStale :: "32 word"
  MinFresh :: "32 word"
  NoCache :: bool
  NoStore :: bool
  OnlyIfCached :: bool
  Extensions :: "string list"

definition RequestCacheDirective_setToken ::
  "RequestCacheDirective \<Rightarrow> string \<Rightarrow> error + RequestCacheDirective" where
  "RequestCacheDirective_setToken d token =
     (if token = HeaderMaxAge then Inl ErrMaxAgeDeltaSeconds
      else if token = HeaderMaxStale then Inl ErrMaxStaleDeltaSeconds
      else if token = HeaderMinFresh then Inl ErrMinFreshDeltaSeconds
      else if token = HeaderNoCache then Inr (d\<lparr>RequestCacheDirective.NoCache := True\<rparr>)
      else if token = HeaderNoStore then Inr (d\<lparr>RequestCacheDirective.NoStore := True\<rparr>)
      else if token = HeaderOnlyIfCached then Inr (d\<lparr>OnlyIfCached := True\<rparr>)
      else Inr (d\<lparr>RequestCacheDirective.Extensions :=
                      RequestCacheDirective.Extensions d @ [token]\<rparr>))"

definition RequestCacheDirective_setPair ::
  "RequestCacheDirective \<Rightarrow> string \<Rightarrow> string \<Rightarrow> error + RequestCacheDirective" where
  "RequestCacheDirective_setPair d key val =
     (if key = HeaderNoCache then Inl ErrNoCacheDirectiveValue
      else if key = HeaderNoStore then Inl ErrNoStoreDirectiveValue
      else if key = HeaderOnlyIfCached then Inl ErrOnlyIfCachedDirectiveValue
      else if key = HeaderMaxAge then
        (case validateDeltaSeconds val of
           (deltaSec, Some err) \<Rightarrow> Inl (Errorf_w ErrMaxAgeDeltaSeconds err)
         | (deltaSec, None) \<Rightarrow> Inr (d\<lparr>RequestCacheDirective.MaxAge := deltaSec\<rparr>))
      else if key = HeaderMaxStale then
        (case validateDeltaSeconds val of
           (deltaSec, Some err) \<Rightarrow> Inl (Errorf_w ErrMaxStaleDeltaSeconds err)
         | (deltaSec, None) \<Rightarrow> Inr (d\<lparr>MaxStale := deltaSec\<rparr>))
      else if key = HeaderMinFresh then
        (case validateDeltaSeconds val of
           (deltaSec, Some err) \<Rightarrow> Inl (Errorf_w ErrMinFreshDeltaSeconds err)
         | (deltaSec, None) \<Rightarrow> Inr (d\<lparr>MinFresh := deltaSec\<rparr>))
      else Inr (d\<lparr>RequestCacheDirective.Extensions :=
                      RequestCacheDirective.Extensions d @ [key @ ''='' @ val]\<rparr>))"

definition RequestCacheDirective_ops :: "RequestCacheDirective directive" where
  "RequestCacheDirective_ops = Directive RequestCacheDirective_setToken RequestCacheDirective_setPair"

text \<open>The record \<^verbatim>\<open>&RequestCacheDirective{MaxAge: -1, MaxStale: -1, MinFresh: -1}\<close>.\<close>

definition RequestCacheDirective_init :: RequestCacheDirective where
  "RequestCacheDirective_init =
     \<lparr>RequestCacheDirective.MaxAge = - 1, MaxStale = - 1, MinFresh = - 1,
      RequestCacheDirective.NoCache = False, RequestCacheDirective.NoStore = False,
      OnlyIfCached = False, RequestCacheDirective.Extensions = []\<rparr>"

text \<open>
  The constructors return a pointer and an error: the pair of an optional record (\<open>None\<close> is
  \<^verbatim>\<open>nil\<close>) and an optional error (\<open>None\<close> is \<^verbatim>\<open>nil\<close>).
\<close>

definition NewRequestCacheDirective :: "string \<Rightarrow> RequestCacheDirective option \<times> error option" where
  "NewRequestCacheDirective value =
     (case parseCacheControlv RequestCacheDirective_ops RequestCacheDirective_init value of
        Inl err \<Rightarrow> (None, Some err)
      | Inr directive \<Rightarrow> (Some directive, None))"

section \<open>The response directive\<close>

text \<open>A \<^verbatim>\<open>map[string]bool\<close> is an optional map: \<open>None\<close> is the \<^verbatim>\<open>nil\<close> map.\<close>

record ResponseCacheDirective =
  MustRevalidate :: bool
  NoCache :: "(string \<rightharpoonup> bool) option"
  NoCachePresent :: bool
  NoStore :: bool
  NoTransform :: bool
  Public :: bool
  Private :: "(string \<rightharpoonup> bool) option"
  PrivatePresent :: bool
  ProxyRevalidate :: bool
  MaxAge :: "32 word"
  SMaxAge :: "32 word"
  Immutable :: bool
  StaleIfError :: "32 word"
  StaleWhileRevalidate :: "32 word"
  Extensions :: "string list"

definition ResponseCacheDirective_setToken ::
  "ResponseCacheDirective \<Rightarrow> string \<Rightarrow> error + ResponseCacheDirective" where
  "ResponseCacheDirective_setToken d token =
     (if token = HeaderMaxAge then Inl ErrMaxAgeDeltaSeconds
      else if token = HeaderSMaxAge then Inl ErrSMaxAgeDeltaSeconds
      else if token = HeaderStaleIfError then Inl ErrStaleIfErrorDeltaSeconds
      else if token = HeaderStaleWhileRevalidate then Inl ErrStaleWhileRevalidateDeltaSeconds
      else if token = HeaderPublic then Inr (d\<lparr>Public := True\<rparr>)
      else if token = HeaderNoStore then Inr (d\<lparr>ResponseCacheDirective.NoStore := True\<rparr>)
      else if token = HeaderImmutable then Inr (d\<lparr>Immutable := True\<rparr>)
      else if token = HeaderNoTransform then Inr (d\<lparr>NoTransform := True\<rparr>)
      else if token = HeaderPrivate then Inr (d\<lparr>PrivatePresent := True\<rparr>)
      else if token = HeaderMustRevalidate then Inr (d\<lparr>MustRevalidate := True\<rparr>)
      else if token = HeaderNoCache then Inr (d\<lparr>NoCachePresent := True\<rparr>)
      else if token = HeaderProxyRevalidate then Inr (d\<lparr>ProxyRevalidate := True\<rparr>)
      else Inr (d\<lparr>ResponseCacheDirective.Extensions :=
                      ResponseCacheDirective.Extensions d @ [token]\<rparr>))"

text \<open>
  The field names of a \<^verbatim>\<open>no-cache\<close> or \<^verbatim>\<open>private\<close> value: the map is made when it is
  \<^verbatim>\<open>nil\<close>, and the loop over the pieces of the value stores each canonical key.
\<close>

definition make_if_nil :: "(string \<rightharpoonup> bool) option \<Rightarrow> (string \<rightharpoonup> bool)" where
  "make_if_nil m = (case m of None \<Rightarrow> Map.empty | Some m' \<Rightarrow> m')"

definition set_fields :: "(string \<rightharpoonup> bool) \<Rightarrow> string list \<Rightarrow> (string \<rightharpoonup> bool)" where
  "set_fields m vals = foldl (\<lambda>m v. m(CanonicalHeaderKey (TrimString v) \<mapsto> True)) m vals"

definition ResponseCacheDirective_setPair ::
  "ResponseCacheDirective \<Rightarrow> string \<Rightarrow> string \<Rightarrow> error + ResponseCacheDirective" where
  "ResponseCacheDirective_setPair d key val =
     (if key = HeaderMustRevalidate then Inl ErrMustRevalidateDirectiveValue
      else if key = HeaderNoStore then Inl ErrNoStoreDirectiveValue
      else if key = HeaderNoTransform then Inl ErrNoTransformDirectiveValue
      else if key = HeaderPublic then Inl ErrPublicDirectiveValue
      else if key = HeaderProxyRevalidate then Inl ErrProxyRevalidateDirectiveValue
      else if key = HeaderImmutable then Inl ErrImmutableDirectiveValue
      else if key = HeaderNoCache then
        Inr (d\<lparr>NoCachePresent := True,
               ResponseCacheDirective.NoCache :=
                 Some (set_fields (make_if_nil (ResponseCacheDirective.NoCache d)) (Split val))\<rparr>)
      else if key = HeaderPrivate then
        Inr (d\<lparr>PrivatePresent := True,
               Private := Some (set_fields (make_if_nil (Private d)) (Split val))\<rparr>)
      else if key = HeaderMaxAge then
        (case validateDeltaSeconds val of
           (deltaSec, Some err) \<Rightarrow> Inl (Errorf_w ErrMaxAgeDeltaSeconds err)
         | (deltaSec, None) \<Rightarrow> Inr (d\<lparr>ResponseCacheDirective.MaxAge := deltaSec\<rparr>))
      else if key = HeaderSMaxAge then
        (case validateDeltaSeconds val of
           (deltaSec, Some err) \<Rightarrow> Inl (Errorf_w ErrSMaxAgeDeltaSeconds err)
         | (deltaSec, None) \<Rightarrow> Inr (d\<lparr>SMaxAge := deltaSec\<rparr>))
      else if key = HeaderStaleIfError then
        (case validateDeltaSeconds val of
           (deltaSec, Some err) \<Rightarrow> Inl (Errorf_w ErrStaleIfErrorDeltaSeconds err)
         | (deltaSec, None) \<Rightarrow> Inr (d\<lparr>StaleIfError := deltaSec\<rparr>))
      else if key = HeaderStaleWhileRevalidate then
        (case validateDeltaSeconds val of
           (deltaSec, Some err) \<Rightarrow> Inl (Errorf_w ErrStaleWhileRevalidateDeltaSeconds err)
         | (deltaSec, None) \<Rightarrow> Inr (d\<lparr>StaleWhileRevalidate := deltaSec\<rparr>))
      else Inr (d\<lparr>ResponseCacheDirective.Extensions :=
                      ResponseCacheDirective.Extensions d @ [key @ ''='' @ val]\<rparr>))"

definition ResponseCacheDirective_ops :: "ResponseCacheDirective directive" where
  "ResponseCacheDirective_ops =
     Directive ResponseCacheDirective_setToken ResponseCacheDirective_setPair"

text \<open>The zero record \<^verbatim>\<open>&ResponseCacheDirective{}\<close>.\<close>

definition ResponseCacheDirective_init :: ResponseCacheDirective where
  "ResponseCacheDirective_init =
     \<lparr>MustRevalidate = False, ResponseCacheDirective.NoCache = None, NoCachePresent = False,
      ResponseCacheDirective.NoStore = False, NoTransform = False, Public = False,
      Private = None, PrivatePresent = False, ProxyRevalidate = False,
      ResponseCacheDirective.MaxAge = 0, SMaxAge = 0, Immutable = False, StaleIfError = 0,
      StaleWhileRevalidate = 0, ResponseCacheDirective.Extensions = []\<rparr>"

definition NewResponseCacheDirective ::
  "string \<Rightarrow> ResponseCacheDirective option \<times> error option" where
  "NewResponseCacheDirective value =
     (case parseCacheControlv ResponseCacheDirective_ops ResponseCacheDirective_init value of
        Inl err \<Rightarrow> (None, Some err)
      | Inr directive \<Rightarrow> (Some directive, None))"

section \<open>Definitions for the statements\<close>

text \<open>The condition on which the loop over an unquoted value stops at a byte.\<close>

definition stops :: "bool \<Rightarrow> char \<Rightarrow> bool" where
  "stops r c \<longleftrightarrow> isWhiteSpace c \<or> (\<not> r \<and> c = CHR '','')"

text \<open>
  The state of the loop of \<^verbatim>\<open>parseCacheControlv\<close> after at most \<open>n\<close> iterations: the
  sink's state and the index, or the error that ended the loop before.
\<close>

fun parseCacheControlv_iter ::
  "nat \<Rightarrow> 'd directive \<Rightarrow> 'd \<Rightarrow> string \<Rightarrow> nat \<Rightarrow> error + 'd \<times> nat" where
  "parseCacheControlv_iter 0 ops d val index = Inr (d, index)"
| "parseCacheControlv_iter (Suc n) ops d val index =
     (if index < length val then
        (case parseCacheControlv_body ops d val index of
           Inl err \<Rightarrow> Inl err
         | Inr (d', index') \<Rightarrow> parseCacheControlv_iter n ops d' val index')
      else Inr (d, index))"

text \<open>
  The loop of \<^verbatim>\<open>parseQuotedString\<close> with a bound on the number of times its condition is
  evaluated: \<open>None\<close> when the bound is used up before the loop returns.
\<close>

fun parseQuotedString_fuel :: "nat \<Rightarrow> string \<Rightarrow> nat \<Rightarrow> string \<Rightarrow> (int \<times> string) option" where
  "parseQuotedString_fuel 0 raw i buf = None"
| "parseQuotedString_fuel (Suc n) raw i buf =
     (if i < length raw then
        (if raw ! i = CHR 0x22 then Some (int (i + 1), buf)
         else if raw ! i = CHR 0x5C then
           (if length raw < i + 2 then Some (- 1, [])
            else parseQuotedString_fuel n raw (i + 2) (buf @ [unquotePair (raw ! (i + 1))]))
         else parseQuotedString_fuel n raw (i + 1)
                (buf @ [if isQdText (raw ! i) then raw ! i else CHR ''?'']))
      else Some (- 1, []))"

text \<open>
  A closing quote in the bytes after the opening quote: a quote byte that is not the second
  byte of a backslash escape. Without one the quoted value is unterminated; this includes
  the value that ends in a backslash with no byte after it.
\<close>

fun closing_quote :: "string \<Rightarrow> bool" where
  "closing_quote [] = False"
| "closing_quote (c # cs) =
     (if c = CHR 0x22 then True
      else if c = CHR 0x5C then (case cs of [] \<Rightarrow> False | e # cs' \<Rightarrow> closing_quote cs')
      else closing_quote cs)"

text \<open>Decimal digits, and the number a string of them denotes.\<close>

definition isDigit :: "char \<Rightarrow> bool" where
  "isDigit c \<longleftrightarrow> (48 :: nat) \<le> of_char c \<and> of_char c \<le> (57 :: nat)"

primrec decimal_from :: "nat \<Rightarrow> string \<Rightarrow> nat" where
  "decimal_from a [] = a"
| "decimal_from a (c # cs) = decimal_from (a * 10 + (of_char c - 48)) cs"

definition decimal_value :: "string \<Rightarrow> nat" where
  "decimal_value n = decimal_from 0 n"

text \<open>
  An age field of a request record is in range when it is the sentinel \<open>-1\<close> or not negative
  as a signed number.
\<close>

definition age_field_ok :: "32 word \<Rightarrow> bool" where
  "age_field_ok x \<longleftrightarrow> x = - 1 \<or> (0 \<le> sint x \<and> sint x \<le> 2147483647)"

definition request_ages_ok :: "RequestCacheDirective \<Rightarrow> bool" where
  "request_ages_ok d \<longleftrightarrow>
     age_field_ok (RequestCacheDirective.MaxAge d) \<and> age_field_ok (MaxStale d) \<and>
     age_field_ok (MinFresh d)"

text \<open>
  The field names of a \<^verbatim>\<open>no-cache\<close> or \<^verbatim>\<open>private\<close> value: the pieces between the commas,
  each trimmed and made canonical, as a set.
\<close>

definition field_names :: "string \<Rightarrow> string set" where
  "field_names v = set (map (\<lambda>piece. CanonicalHeaderKey (TrimString piece)) (Split v))"

text \<open>A field-name map that is not \<^verbatim>\<open>nil\<close> and holds \<open>true\<close> under the empty string.\<close>

definition has_empty_key :: "(string \<rightharpoonup> bool) option \<Rightarrow> bool" where
  "has_empty_key m = (case m of None \<Rightarrow> False | Some m' \<Rightarrow> m' [] = Some True)"

text \<open>The pieces of a list joined again, with a comma between each two.\<close>

fun join_commas :: "string list \<Rightarrow> string" where
  "join_commas [] = []"
| "join_commas [p] = p"
| "join_commas (p # q # ps) = p @ CHR '','' # join_commas (q # ps)"

section \<open>The scans and the loops\<close>

lemma scanToken_append:
  assumes "\<forall>c \<in> set t. isToken c" and "rest = [] \<or> \<not> isToken (hd rest)"
  shows "scanToken (pre @ t @ rest) (length pre) = length pre + length t"
  using assms
proof (induction t arbitrary: pre)
  case Nil
  then show ?case
    using scanToken.simps [of "pre @ rest" "length pre"]
    by (cases rest) (auto simp: nth_append)
next
  case (Cons c t)
  have "scanToken ((pre @ [c]) @ t @ rest) (length (pre @ [c])) = length (pre @ [c]) + length t"
    using Cons.prems by (intro Cons.IH) auto
  moreover have "scanToken (pre @ (c # t) @ rest) (length pre)
                 = scanToken (pre @ (c # t) @ rest) (length pre + 1)"
    using Cons.prems scanToken.simps [of "pre @ (c # t) @ rest" "length pre"]
    by (simp add: nth_append)
  ultimately show ?case by simp
qed

lemma scanToken_takeWhile:
  "i \<le> length val \<Longrightarrow> scanToken val i = i + length (takeWhile isToken (drop i val))"
proof -
  assume le: "i \<le> length val"
  let ?t = "takeWhile isToken (drop i val)" and ?r = "dropWhile isToken (drop i val)"
  have "val = take i val @ ?t @ ?r" by simp
  moreover have "scanToken (take i val @ ?t @ ?r) (length (take i val)) = length (take i val) + length ?t"
  proof (rule scanToken_append)
    show "\<forall>c\<in>set ?t. isToken c" by (auto dest: set_takeWhileD)
    show "?r = [] \<or> \<not> isToken (hd ?r)" using hd_dropWhile [of isToken "drop i val"] by auto
  qed
  ultimately show ?thesis using le by (simp add: min_absorb2)
qed

lemma scanValue_append:
  assumes "\<forall>c \<in> set v. \<not> stops r c" and "rest = [] \<or> stops r (hd rest)"
  shows "scanValue (pre @ v @ rest) r (length pre) = length pre + length v"
  using assms
proof (induction v arbitrary: pre)
  case Nil
  then show ?case
    using scanValue.simps [of "pre @ rest" r "length pre"]
    by (cases rest) (auto simp: nth_append stops_def)
next
  case (Cons c v)
  have "scanValue ((pre @ [c]) @ v @ rest) r (length (pre @ [c])) = length (pre @ [c]) + length v"
    using Cons.prems by (intro Cons.IH) auto
  moreover have "scanValue (pre @ (c # v) @ rest) r (length pre)
                 = scanValue (pre @ (c # v) @ rest) r (length pre + 1)"
    using Cons.prems scanValue.simps [of "pre @ (c # v) @ rest" r "length pre"]
    by (auto simp add: nth_append stops_def)
  ultimately show ?case by simp
qed

lemma scanValue_takeWhile:
  "i \<le> length val \<Longrightarrow>
   scanValue val r i = i + length (takeWhile (\<lambda>c. \<not> stops r c) (drop i val))"
proof -
  assume le: "i \<le> length val"
  let ?t = "takeWhile (\<lambda>c. \<not> stops r c) (drop i val)"
  let ?r = "dropWhile (\<lambda>c. \<not> stops r c) (drop i val)"
  have "val = take i val @ ?t @ ?r" by simp
  moreover have "scanValue (take i val @ ?t @ ?r) r (length (take i val)) = length (take i val) + length ?t"
  proof (rule scanValue_append)
    show "\<forall>c\<in>set ?t. \<not> stops r c" by (auto dest: set_takeWhileD)
    show "?r = [] \<or> stops r (hd ?r)" using hd_dropWhile [of "\<lambda>c. \<not> stops r c" "drop i val"] by auto
  qed
  ultimately show ?thesis using le by (simp add: min_absorb2)
qed

lemma scanToken_le: "i \<le> length val \<Longrightarrow> scanToken val i \<le> length val"
proof -
  assume le: "i \<le> length val"
  have "length (takeWhile isToken (drop i val)) \<le> length (drop i val)"
    by (rule length_takeWhile_le)
  with le show ?thesis by (simp add: scanToken_takeWhile)
qed

lemma scanValue_le: "i \<le> length val \<Longrightarrow> scanValue val r i \<le> length val"
proof -
  assume le: "i \<le> length val"
  have "length (takeWhile (\<lambda>c. \<not> stops r c) (drop i val)) \<le> length (drop i val)"
    by (rule length_takeWhile_le)
  with le show ?thesis by (simp add: scanValue_takeWhile)
qed

lemma parseQuotedString_loop_le:
  "parseQuotedString_loop raw i buf = (eaten, v) \<Longrightarrow> eaten \<le> int (length raw)"
proof (induction raw i buf rule: parseQuotedString_loop.induct)
  case (1 raw i buf)
  from "1.prems" show ?case
    using parseQuotedString_loop.simps [of raw i buf] "1.IH"
    by (auto split: if_splits)
qed

lemma parseQuotedString_loop_closing:
  "i \<le> length raw \<Longrightarrow>
   (fst (parseQuotedString_loop raw i buf) = - 1) = (\<not> closing_quote (drop i raw))"
proof (induction raw i buf rule: parseQuotedString_loop.induct)
  case (1 raw i buf)
  show ?case
  proof (cases "i < length raw")
    case False
    with "1.prems" show ?thesis
      using parseQuotedString_loop.simps [of raw i buf] by simp
  next
    case inb: True
    then have dr: "drop i raw = raw ! i # drop (Suc i) raw"
      by (simp add: Cons_nth_drop_Suc)
    show ?thesis
    proof (cases "raw ! i = CHR 0x22")
      case True
      with inb dr show ?thesis
        using parseQuotedString_loop.simps [of raw i buf] by simp
    next
      case nq: False
      show ?thesis
      proof (cases "raw ! i = CHR 0x5C")
        case bs: True
        show ?thesis
        proof (cases "length raw < i + 2")
          case True
          with inb have "drop (Suc i) raw = []" by simp
          with True inb nq bs dr show ?thesis
            using parseQuotedString_loop.simps [of raw i buf] by simp
        next
          case False
          then have dr2: "drop (Suc i) raw = raw ! (Suc i) # drop (i + 2) raw"
            by (simp add: Cons_nth_drop_Suc)
          from False inb nq bs "1.IH"(1)
          have "(fst (parseQuotedString_loop raw (i + 2) (buf @ [unquotePair (raw ! (i + 1))])) = - 1)
                = (\<not> closing_quote (drop (i + 2) raw))" by simp
          with False inb nq bs dr dr2 show ?thesis
            using parseQuotedString_loop.simps [of raw i buf] by simp
        qed
      next
        case False
        with inb nq "1.IH"(2)
        have "(fst (parseQuotedString_loop raw (i + 1)
                (buf @ [if isQdText (raw ! i) then raw ! i else CHR ''?''])) = - 1)
              = (\<not> closing_quote (drop (i + 1) raw))" by simp
        with False inb nq dr show ?thesis
          using parseQuotedString_loop.simps [of raw i buf] by simp
      qed
    qed
  qed
qed

lemma parseQuotedString_bounds:
  assumes "parseQuotedString raw = Inr (eaten, v)"
  shows "eaten = - 1 \<or> (2 \<le> eaten \<and> eaten \<le> int (length raw))"
  using assms parseQuotedString_loop_ge [of raw 1 "[]" eaten v]
    parseQuotedString_loop_le [of raw 1 "[]" eaten v]
  by (auto simp: parseQuotedString_def split: if_splits)

lemma parseQuotedString_unterminated:
  assumes "raw \<noteq> []" and "hd raw = CHR 0x22"
  shows "(\<exists>v. parseQuotedString raw = Inr (- 1, v)) = (\<not> closing_quote (tl raw))"
proof -
  from assms have "1 \<le> length raw" by (cases raw) auto
  then have "(fst (parseQuotedString_loop raw 1 []) = - 1) = (\<not> closing_quote (drop 1 raw))"
    by (rule parseQuotedString_loop_closing)
  moreover from assms have "parseQuotedString raw = Inr (parseQuotedString_loop raw 1 [])"
    by (cases raw) (auto simp: parseQuotedString_def)
  ultimately show ?thesis
    by (cases "parseQuotedString_loop raw 1 []") (auto simp: drop_Suc)
qed

lemma parseCacheControlv_body_skip:
  "isWhiteSpace (val ! index) \<or> val ! index = CHR '','' \<Longrightarrow>
   parseCacheControlv_body ops d val index = Inr (d, index + 1)"
  by (simp add: parseCacheControlv_body_def)

lemma parseCacheControlv_body_bare:
  assumes "\<not> isWhiteSpace (val ! index)" and "val ! index \<noteq> CHR '',''"
    and "\<not> (scanToken val (Suc index) + 1 < length val \<and> val ! scanToken val (Suc index) = CHR ''='')"
  shows "parseCacheControlv_body ops d val index =
     (let tokenEnd = scanToken val (Suc index); token = ToLower (slice val index tokenEnd) in
      if token \<noteq> '','' then
        (case setToken ops d token of Inl err \<Rightarrow> Inl err | Inr d' \<Rightarrow> Inr (d', tokenEnd))
      else Inr (d, tokenEnd))"
  using assms
  by (cases "scanToken val (Suc index) + 1 < length val")
     (simp_all add: parseCacheControlv_body_def Let_def)

lemma parseCacheControlv_body_quoted:
  assumes "\<not> isWhiteSpace (val ! index)" and "val ! index \<noteq> CHR '',''"
    and "scanToken val (Suc index) + 1 < length val"
    and "val ! scanToken val (Suc index) = CHR ''=''"
    and "val ! (scanToken val (Suc index) + 1) = CHR 0x22"
  shows "parseCacheControlv_body ops d val index =
     (let tokenEnd = scanToken val (Suc index); token = ToLower (slice val index tokenEnd) in
      case parseQuotedString (drop (tokenEnd + 1) val) of
        Inl e \<Rightarrow> Inl e
      | Inr (eaten, value) \<Rightarrow>
          if eaten = - 1 then Inl ErrMissingClosingQuote
          else (case setPair ops d token value of
                  Inl err \<Rightarrow> Inl err
                | Inr d' \<Rightarrow> Inr (d', nat (int (tokenEnd + 1) + eaten))))"
  using assms
  by (simp add: parseCacheControlv_body_def Let_def cong: sum.case_cong prod.case_cong if_cong)

lemma parseCacheControlv_body_unquoted:
  assumes "\<not> isWhiteSpace (val ! index)" and "val ! index \<noteq> CHR '',''"
    and "scanToken val (Suc index) + 1 < length val"
    and "val ! scanToken val (Suc index) = CHR ''=''"
    and "val ! (scanToken val (Suc index) + 1) \<noteq> CHR 0x22"
  shows "parseCacheControlv_body ops d val index =
     (let tokenEnd = scanToken val (Suc index); token = ToLower (slice val index tokenEnd);
          valueEnd = scanValue val (tokenRequireExtensionFields token) (tokenEnd + 1);
          value0 = slice val (tokenEnd + 1) valueEnd;
          value = (if value0 \<noteq> [] \<and> last value0 = CHR '','' then butlast value0 else value0)
      in case setPair ops d token value of
           Inl err \<Rightarrow> Inl err
         | Inr d' \<Rightarrow> Inr (d', valueEnd))"
  using assms
  by (simp add: parseCacheControlv_body_def Let_def cong: sum.case_cong prod.case_cong if_cong)

lemma sink_result_index:
  "(case x of Inl err \<Rightarrow> Inl err | Inr d' \<Rightarrow> Inr (d', k)) = Inr (d'', k') \<Longrightarrow> k' = k"
  by (cases x) auto

lemma parseCacheControlv_body_cases:
  assumes "parseCacheControlv_body ops d val index = Inr (d', index')"
  obtains
    (skip) "index' = index + 1"
  | (quoted) eaten v where
      "scanToken val (Suc index) + 1 < length val"
      "parseQuotedString (drop (scanToken val (Suc index) + 1) val) = Inr (eaten, v)"
      "eaten \<noteq> - 1"
      "index' = nat (int (scanToken val (Suc index) + 1) + eaten)"
  | (unquoted) r where
      "scanToken val (Suc index) + 1 < length val"
      "index' = scanValue val r (scanToken val (Suc index) + 1)"
  | (bare) "index' = scanToken val (Suc index)"
proof -
  let ?te = "scanToken val (Suc index)"
  show thesis
  proof (cases "isWhiteSpace (val ! index) \<or> val ! index = CHR '',''")
    case True
    with assms have "index' = index + 1"
      by (simp add: parseCacheControlv_body_skip)
    then show thesis by (rule skip)
  next
    case nosep: False
    show thesis
    proof (cases "?te + 1 < length val \<and> val ! ?te = CHR ''=''")
      case False
      with nosep have "parseCacheControlv_body ops d val index =
         (let tokenEnd = ?te; token = ToLower (slice val index tokenEnd) in
          if token \<noteq> '','' then
            (case setToken ops d token of Inl err \<Rightarrow> Inl err | Inr d' \<Rightarrow> Inr (d', tokenEnd))
          else Inr (d, tokenEnd))"
        by (intro parseCacheControlv_body_bare) auto
      with assms have "index' = ?te"
        by (cases "ToLower (slice val index ?te) = '',''")
           (auto simp: Let_def dest: sink_result_index)
      then show thesis by (rule bare)
    next
      case pair: True
      show thesis
      proof (cases "val ! (?te + 1) = CHR 0x22")
        case True
        with nosep pair have eq: "parseCacheControlv_body ops d val index =
           (case parseQuotedString (drop (?te + 1) val) of
              Inl e \<Rightarrow> Inl e
            | Inr (eaten, value) \<Rightarrow>
                if eaten = - 1 then Inl ErrMissingClosingQuote
                else (case setPair ops d (ToLower (slice val index ?te)) value of
                        Inl err \<Rightarrow> Inl err
                      | Inr d' \<Rightarrow> Inr (d', nat (int (?te + 1) + eaten))))"
          using parseCacheControlv_body_quoted [of val index ops d] by (simp add: Let_def)
        show thesis
        proof (cases "parseQuotedString (drop (?te + 1) val)")
          case (Inl e)
          with eq assms show thesis by simp
        next
          case (Inr p)
          obtain eaten v where p: "p = (eaten, v)" by (cases p)
          from eq assms Inr p have ne: "eaten \<noteq> - 1" by auto
          with eq assms Inr p
          have "(case setPair ops d (ToLower (slice val index ?te)) v of
                   Inl err \<Rightarrow> Inl err
                 | Inr d' \<Rightarrow> Inr (d', nat (int (?te + 1) + eaten))) = Inr (d', index')"
            by simp
          then have "index' = nat (int (?te + 1) + eaten)"
            by (rule sink_result_index)
          with pair Inr p ne show thesis by (intro quoted) auto
        qed
      next
        case False
        with nosep pair have "parseCacheControlv_body ops d val index =
           (let tokenEnd = ?te; token = ToLower (slice val index tokenEnd);
                valueEnd = scanValue val (tokenRequireExtensionFields token) (tokenEnd + 1);
                value0 = slice val (tokenEnd + 1) valueEnd;
                value = (if value0 \<noteq> [] \<and> last value0 = CHR '','' then butlast value0
                         else value0)
            in case setPair ops d token value of
                 Inl err \<Rightarrow> Inl err
               | Inr d' \<Rightarrow> Inr (d', valueEnd))"
          by (intro parseCacheControlv_body_unquoted) auto
        with assms
        have "index' = scanValue val
                 (tokenRequireExtensionFields (ToLower (slice val index ?te))) (?te + 1)"
          unfolding Let_def by (auto dest: sink_result_index)
        with pair show thesis by (intro unquoted) auto
      qed
    qed
  qed
qed

lemma parseCacheControlv_body_bound:
  assumes "index < length val" and "parseCacheControlv_body ops d val index = Inr (d', index')"
  shows "index' \<le> length val"
  using assms(2)
proof (cases rule: parseCacheControlv_body_cases)
  case skip
  with assms(1) show ?thesis by simp
next
  case (quoted eaten v)
  from parseQuotedString_bounds [OF quoted(2)] quoted(3)
  have "2 \<le> eaten" and "eaten \<le> int (length (drop (scanToken val (Suc index) + 1) val))"
    by auto
  with quoted(1,4) show ?thesis by simp
next
  case (unquoted r)
  then show ?thesis using scanValue_le [of "scanToken val (Suc index) + 1" val r] by simp
next
  case bare
  then show ?thesis using assms(1) scanToken_le [of "Suc index" val] by simp
qed

lemma parseCacheControlv_loop_step:
  "index < length val \<Longrightarrow>
   parseCacheControlv_loop ops d val index =
     (case parseCacheControlv_body ops d val index of
        Inl err \<Rightarrow> Inl err
      | Inr (d', index') \<Rightarrow> parseCacheControlv_loop ops d' val index')"
  using parseCacheControlv_loop.simps [of ops d val index] by simp

lemma parseCacheControlv_loop_end:
  "length val \<le> index \<Longrightarrow> parseCacheControlv_loop ops d val index = Inr d"
  using parseCacheControlv_loop.simps [of ops d val index] by simp

lemma parseCacheControlv_iter_loop:
  "parseCacheControlv_loop ops d val index =
     (case parseCacheControlv_iter n ops d val index of
        Inl err \<Rightarrow> Inl err
      | Inr (d', index') \<Rightarrow> parseCacheControlv_loop ops d' val index')"
proof (induction n arbitrary: d index)
  case 0
  show ?case by simp
next
  case (Suc n)
  show ?case
  proof (cases "index < length val")
    case True
    show ?thesis
    proof (cases "parseCacheControlv_body ops d val index")
      case (Inl e)
      with True show ?thesis by (simp add: parseCacheControlv_loop_step)
    next
      case (Inr p)
      obtain d1 i1 where p: "p = (d1, i1)" by (cases p)
      from True Inr p
      have "parseCacheControlv_loop ops d val index = parseCacheControlv_loop ops d1 val i1"
        by (simp add: parseCacheControlv_loop_step)
      also have "\<dots> = (case parseCacheControlv_iter n ops d1 val i1 of
                         Inl err \<Rightarrow> Inl err
                       | Inr (d', index') \<Rightarrow> parseCacheControlv_loop ops d' val index')"
        by (rule Suc.IH)
      finally show ?thesis using True Inr p by simp
    qed
  next
    case False
    then show ?thesis by simp
  qed
qed

lemma parseCacheControlv_iter_progress:
  "parseCacheControlv_iter n ops d val index = Inr (d', index') \<Longrightarrow>
   min (length val) (index + n) \<le> index'"
proof (induction n arbitrary: d index)
  case 0
  then show ?case by simp
next
  case (Suc n)
  show ?case
  proof (cases "index < length val")
    case False
    with Suc.prems show ?thesis by simp
  next
    case True
    with Suc.prems obtain d1 i1 where
      b: "parseCacheControlv_body ops d val index = Inr (d1, i1)"
      and it: "parseCacheControlv_iter n ops d1 val i1 = Inr (d', index')"
      by (auto split: sum.splits)
    from b have "index < i1" by (rule parseCacheControlv_body_advances)
    moreover from Suc.IH [OF it] have "min (length val) (i1 + n) \<le> index'" .
    ultimately show ?thesis by simp
  qed
qed

lemma parseQuotedString_fuel_enough:
  "length raw \<le> i + n \<Longrightarrow>
   parseQuotedString_fuel (Suc n) raw i buf = Some (parseQuotedString_loop raw i buf)"
proof (induction n arbitrary: i buf)
  case 0
  then show ?case using parseQuotedString_loop.simps [of raw i buf] by simp
next
  case (Suc n)
  have a: "parseQuotedString_fuel (Suc n) raw (Suc (Suc i)) b
           = Some (parseQuotedString_loop raw (Suc (Suc i)) b)"
    for b using Suc.prems by (intro Suc.IH) simp
  have b: "parseQuotedString_fuel (Suc n) raw (Suc i) b
           = Some (parseQuotedString_loop raw (Suc i) b)"
    for b using Suc.prems by (intro Suc.IH) simp
  show ?case
    by (subst parseQuotedString_loop.simps, subst parseQuotedString_fuel.simps)
       (simp add: a b del: parseQuotedString_fuel.simps)
qed

lemma parseCacheControlv_iter_exit:
  "(case parseCacheControlv_iter (length val) ops d val 0 of
      Inl err \<Rightarrow> parseCacheControlv ops d val = Inl err
    | Inr (d', index') \<Rightarrow> length val \<le> index' \<and> parseCacheControlv ops d val = Inr d')"
proof (cases "parseCacheControlv_iter (length val) ops d val 0")
  case (Inl err)
  then show ?thesis
    using parseCacheControlv_iter_loop [of ops d val 0 "length val"]
    by (simp add: parseCacheControlv_def)
next
  case (Inr p)
  obtain d' index' where p: "p = (d', index')" by (cases p)
  from Inr p have le: "length val \<le> index'"
    using parseCacheControlv_iter_progress [of "length val" ops d val 0 d' index'] by simp
  from Inr p have "parseCacheControlv ops d val = parseCacheControlv_loop ops d' val index'"
    using parseCacheControlv_iter_loop [of ops d val 0 "length val"]
    by (simp add: parseCacheControlv_def)
  with le Inr p show ?thesis by (simp add: parseCacheControlv_loop_end)
qed

lemma parseCacheControlv_iter_reach:
  assumes "parseCacheControlv_iter n ops d0 val 0 = Inr (d, index)"
  shows "parseCacheControlv ops d0 val = parseCacheControlv_loop ops d val index"
  using parseCacheControlv_iter_loop [of ops d0 val 0 n] assms
  by (simp add: parseCacheControlv_def)

lemma parseCacheControlv_body_unterminated:
  assumes "\<not> isWhiteSpace (val ! index)" and "val ! index \<noteq> CHR '',''"
    and "scanToken val (Suc index) + 1 < length val"
    and "val ! scanToken val (Suc index) = CHR ''=''"
    and "val ! (scanToken val (Suc index) + 1) = CHR 0x22"
    and "\<not> closing_quote (drop (scanToken val (Suc index) + 2) val)"
  shows "parseCacheControlv_body ops d val index = Inl ErrMissingClosingQuote"
proof -
  let ?te = "scanToken val (Suc index)"
  let ?raw = "drop (?te + 1) val"
  from assms(3) have ne: "?raw \<noteq> []" by simp
  from assms(3,5) have hd: "hd ?raw = CHR 0x22" by (simp add: hd_drop_conv_nth)
  have "tl ?raw = drop (?te + 2) val" by (simp add: drop_Suc tl_drop)
  with assms(6) parseQuotedString_unterminated [OF ne hd]
  obtain v where "parseQuotedString ?raw = Inr (- 1, v)" by auto
  moreover have "parseCacheControlv_body ops d val index =
     (case parseQuotedString ?raw of
        Inl e \<Rightarrow> Inl e
      | Inr (eaten, value) \<Rightarrow>
          if eaten = - 1 then Inl ErrMissingClosingQuote
          else (case setPair ops d (ToLower (slice val index ?te)) value of
                  Inl err \<Rightarrow> Inl err
                | Inr d' \<Rightarrow> Inr (d', nat (int (?te + 1) + eaten))))"
    using parseCacheControlv_body_quoted [OF assms(1-5), of ops d] by (simp add: Let_def)
  ultimately show ?thesis by simp
qed

lemmas eval_simps =
  numeral_3_eq_3 parseCacheControlv_body_def Let_def scanToken.simps scanValue.simps
  parseQuotedString_def parseQuotedString_loop.simps slice_def ToLower_def lower_byte_def
  tokenRequireExtensionFields_def isWhiteSpace_def isToken_def isChar_def isCtl_def
  isSeparator_def isQdText_def isAnyText_def unquotePair_def
  ResponseCacheDirective_ops_def ResponseCacheDirective_setToken_def
  ResponseCacheDirective_setPair_def ResponseCacheDirective_init_def
  RequestCacheDirective_ops_def RequestCacheDirective_setToken_def
  RequestCacheDirective_setPair_def RequestCacheDirective_init_def
  Header_defs validateDeltaSeconds_def ParseUint_def cutoff_def maxVal_def MaxInt32_def

lemma decimal_from_ge: "a \<le> decimal_from a cs"
proof (induction cs arbitrary: a)
  case Nil
  show ?case by simp
next
  case (Cons c cs)
  have "a \<le> a * 10 + (of_char c - 48)" by simp
  also have "\<dots> \<le> decimal_from (a * 10 + (of_char c - 48)) cs" by (rule Cons.IH)
  finally show ?case by simp
qed

lemma uint64_step:
  fixes n :: "64 word"
  assumes "unat n \<le> 4294967295" and "d < 10"
  shows "unat (n * 10) = unat n * 10"
    and "unat (n * 10 + word_of_nat d) = unat n * 10 + d"
proof -
  from assms(1) show m: "unat (n * 10) = unat n * 10"
    by (simp add: unat_word_ariths)
  from assms(2) have d: "unat (word_of_nat d :: 64 word) = d"
    by (simp add: unat_of_nat)
  from assms show "unat (n * 10 + word_of_nat d) = unat n * 10 + d"
    by (simp add: unat_word_ariths(1) m d)
qed

lemma ParseUint_loop_digits:
  assumes "\<forall>c \<in> set cs. isDigit c" and "unat n \<le> 4294967295"
  shows "ParseUint_loop s0 n cs =
     (if decimal_from (unat n) cs \<le> 4294967295
      then (word_of_nat (decimal_from (unat n) cs), None)
      else (maxVal, Some (NumError ''ParseUint'' s0 ErrRange)))"
  using assms
proof (induction cs arbitrary: n)
  case Nil
  then show ?case by simp
next
  case (Cons c cs)
  let ?d = "of_char c - 48 :: nat"
  let ?n1 = "n * 10 + word_of_nat ?d"
  from Cons.prems(1) have dig: "(48 :: nat) \<le> of_char c" "of_char c \<le> (57 :: nat)"
    by (simp_all add: isDigit_def)
  then have d10: "?d < 10" by simp
  have u10: "unat (n * 10) = unat n * 10" and u1: "unat ?n1 = unat n * 10 + ?d"
    using uint64_step [OF Cons.prems(2) d10] by simp_all
  have nocut: "\<not> cutoff \<le> n"
    using Cons.prems(2) by (simp add: cutoff_def word_le_nat_alt)
  have nowrap: "\<not> ?n1 < n * 10"
    by (simp add: word_less_nat_alt u10 u1)
  have over: "(maxVal < ?n1) = (4294967295 < unat n * 10 + ?d)"
    by (simp add: maxVal_def word_less_nat_alt u1)
  show ?case
  proof (cases "4294967295 < unat n * 10 + ?d")
    case True
    then have "4294967295 < decimal_from (unat n * 10 + ?d) cs"
      using decimal_from_ge [of "unat n * 10 + ?d" cs] by simp
    with True dig d10 nocut over show ?thesis by (simp add: Let_def del: of_nat_diff)
  next
    case False
    then have le: "unat ?n1 \<le> 4294967295" by (simp add: u1)
    from Cons.prems(1) have "\<forall>c \<in> set cs. isDigit c" by simp
    from Cons.IH [OF this le] False dig d10 nocut nowrap over show ?thesis
      by (simp add: Let_def u1 del: of_nat_diff)
  qed
qed

lemma sint_ucast_small:
  fixes w :: "64 word"
  assumes "uint w \<le> 2147483647"
  shows "sint (ucast w :: 32 word) = uint w"
proof -
  have "sint (ucast w :: 32 word) = sint (word_of_int (uint w) :: 32 word)"
    by (simp only: ucast_eq)
  also have "\<dots> = signed_take_bit (LENGTH(32) - 1) (uint w)"
    by (rule sint_sbintrunc')
  also have "\<dots> = uint w"
  proof (rule signed_take_bit_int_eq_self)
    have "- (2 ^ (LENGTH(32) - 1)) \<le> (0 :: int)" by simp
    also have "0 \<le> uint w" by simp
    finally show "- (2 ^ (LENGTH(32) - 1)) \<le> uint w" .
    from assms show "uint w < 2 ^ (LENGTH(32) - 1)" by simp
  qed
  finally show ?thesis .
qed

lemma ucast_of_nat_down: "(ucast (word_of_nat v :: 64 word) :: 32 word) = word_of_nat v"
proof -
  have d: "is_down (ucast :: 64 word \<Rightarrow> 32 word)" by (simp add: is_down)
  have "ucast (word_of_int (int v) :: 64 word) = (word_of_int (int v) :: 32 word)"
    by (rule ucast_down_wi [OF d])
  then show ?thesis by simp
qed

lemma validateDeltaSeconds_range:
  assumes "validateDeltaSeconds delta = (x, None)"
  shows "0 \<le> sint x \<and> sint x \<le> 2147483647"
proof -
  obtain w e where p: "ParseUint delta = (w, e)" by (cases "ParseUint delta")
  have m: "sint (MaxInt32 :: 32 word) = 2147483647" by (simp add: MaxInt32_def)
  show ?thesis
  proof (cases e)
    case (Some err)
    with p assms have "x = MaxInt32"
      by (cases "Err err") (simp_all add: validateDeltaSeconds_def)
    with m show ?thesis by simp
  next
    case None
    show ?thesis
    proof (cases "(MaxInt32 :: 64 word) < w")
      case True
      with p None assms have "x = MaxInt32" by (simp add: validateDeltaSeconds_def)
      with m show ?thesis by simp
    next
      case False
      then have small: "uint w \<le> 2147483647"
        by (simp add: MaxInt32_def word_less_def)
      from False p None assms have "x = ucast w" by (simp add: validateDeltaSeconds_def)
      with small sint_ucast_small [OF small] show ?thesis by simp
    qed
  qed
qed

lemma validateDeltaSeconds_digits:
  assumes "n \<noteq> []" and "\<forall>c \<in> set n. isDigit c"
  shows "validateDeltaSeconds n = (word_of_nat (min (decimal_value n) 2147483647), None)"
proof -
  let ?v = "decimal_value n"
  have pu: "ParseUint n =
     (if ?v \<le> 4294967295 then (word_of_nat ?v, None)
      else (maxVal, Some (NumError ''ParseUint'' n ErrRange)))"
    using assms ParseUint_loop_digits [of n 0 n]
    by (simp add: ParseUint_def decimal_value_def)
  show ?thesis
  proof (cases "?v \<le> 4294967295")
    case False
    with pu show ?thesis
      by (simp add: validateDeltaSeconds_def MaxInt32_def min_def)
  next
    case le: True
    then have u: "unat (word_of_nat ?v :: 64 word) = ?v" by (simp add: unat_of_nat)
    have lt: "((MaxInt32 :: 64 word) < word_of_nat ?v) = (2147483647 < ?v)"
      by (simp add: word_less_nat_alt u MaxInt32_def)
    from le pu lt ucast_of_nat_down [of ?v] show ?thesis
      by (simp add: validateDeltaSeconds_def MaxInt32_def min_def)
  qed
qed

lemma sink_result_state:
  "(case x of Inl err \<Rightarrow> Inl err | Inr d' \<Rightarrow> Inr (d', k)) = Inr (d'', k') \<Longrightarrow> x = Inr d''"
  by (cases x) auto

lemma parseCacheControlv_body_state:
  assumes "parseCacheControlv_body ops d val index = Inr (d', index')"
  shows "d' = d \<or> (\<exists>t. setToken ops d t = Inr d') \<or> (\<exists>k v. setPair ops d k v = Inr d')"
proof -
  let ?te = "scanToken val (Suc index)"
  let ?tok = "ToLower (slice val index ?te)"
  show ?thesis
  proof (cases "isWhiteSpace (val ! index) \<or> val ! index = CHR '',''")
    case True
    with assms show ?thesis by (simp add: parseCacheControlv_body_skip)
  next
    case nosep: False
    show ?thesis
    proof (cases "?te + 1 < length val \<and> val ! ?te = CHR ''=''")
      case False
      with nosep have eq: "parseCacheControlv_body ops d val index =
         (if ?tok \<noteq> '','' then
            (case setToken ops d ?tok of Inl err \<Rightarrow> Inl err | Inr d' \<Rightarrow> Inr (d', ?te))
          else Inr (d, ?te))"
        using parseCacheControlv_body_bare [of val index ops d] by (simp add: Let_def)
      show ?thesis
      proof (cases "?tok = '',''")
        case True
        with eq assms show ?thesis by simp
      next
        case False
        with eq assms
        have "(case setToken ops d ?tok of Inl err \<Rightarrow> Inl err | Inr d' \<Rightarrow> Inr (d', ?te))
              = Inr (d', index')" by simp
        then have "setToken ops d ?tok = Inr d'" by (rule sink_result_state)
        then show ?thesis by blast
      qed
    next
      case pair: True
      show ?thesis
      proof (cases "val ! (?te + 1) = CHR 0x22")
        case True
        with nosep pair have eq: "parseCacheControlv_body ops d val index =
           (case parseQuotedString (drop (?te + 1) val) of
              Inl e \<Rightarrow> Inl e
            | Inr (eaten, value) \<Rightarrow>
                if eaten = - 1 then Inl ErrMissingClosingQuote
                else (case setPair ops d ?tok value of
                        Inl err \<Rightarrow> Inl err
                      | Inr d' \<Rightarrow> Inr (d', nat (int (?te + 1) + eaten))))"
          using parseCacheControlv_body_quoted [of val index ops d] by (simp add: Let_def)
        show ?thesis
        proof (cases "parseQuotedString (drop (?te + 1) val)")
          case (Inl e)
          with eq assms show ?thesis by simp
        next
          case (Inr p)
          obtain eaten v where p: "p = (eaten, v)" by (cases p)
          from eq assms Inr p have ne: "eaten \<noteq> - 1" by auto
          with eq assms Inr p
          have "(case setPair ops d ?tok v of
                   Inl err \<Rightarrow> Inl err
                 | Inr d' \<Rightarrow> Inr (d', nat (int (?te + 1) + eaten))) = Inr (d', index')"
            by simp
          then have "setPair ops d ?tok v = Inr d'" by (rule sink_result_state)
          then show ?thesis by blast
        qed
      next
        case False
        with nosep pair have "parseCacheControlv_body ops d val index =
           (let tokenEnd = ?te; token = ToLower (slice val index tokenEnd);
                valueEnd = scanValue val (tokenRequireExtensionFields token) (tokenEnd + 1);
                value0 = slice val (tokenEnd + 1) valueEnd;
                value = (if value0 \<noteq> [] \<and> last value0 = CHR '','' then butlast value0
                         else value0)
            in case setPair ops d token value of
                 Inl err \<Rightarrow> Inl err
               | Inr d' \<Rightarrow> Inr (d', valueEnd))"
          by (intro parseCacheControlv_body_unquoted) auto
        with assms show ?thesis
          unfolding Let_def by (auto dest: sink_result_state)
      qed
    qed
  qed
qed

lemma parseCacheControlv_loop_invariant:
  assumes "\<And>d t d'. P d \<Longrightarrow> setToken ops d t = Inr d' \<Longrightarrow> P d'"
    and "\<And>d k v d'. P d \<Longrightarrow> setPair ops d k v = Inr d' \<Longrightarrow> P d'"
    and "P d" and "parseCacheControlv_loop ops d val index = Inr d'"
  shows "P d'"
  using assms
proof (induction ops d val index rule: parseCacheControlv_loop.induct)
  case (1 ops d val index)
  note tok = "1.prems"(1) and pair = "1.prems"(2)
  show ?case
  proof (cases "index < length val")
    case False
    with "1.prems"(3,4) show ?thesis by (simp add: parseCacheControlv_loop_end)
  next
    case True
    show ?thesis
    proof (cases "parseCacheControlv_body ops d val index")
      case (Inl e)
      with True "1.prems"(4) show ?thesis by (simp add: parseCacheControlv_loop_step)
    next
      case (Inr p)
      obtain d1 i1 where p: "p = (d1, i1)" by (cases p)
      from True Inr p "1.prems"(4) have l: "parseCacheControlv_loop ops d1 val i1 = Inr d'"
        by (simp add: parseCacheControlv_loop_step)
      from Inr p have "d1 = d \<or> (\<exists>t. setToken ops d t = Inr d1) \<or> (\<exists>k v. setPair ops d k v = Inr d1)"
        by (intro parseCacheControlv_body_state) simp
      with "1.prems"(3) tok pair have "P d1" by blast
      from "1.IH" [OF True Inr p [symmetric] tok pair this l] show ?thesis .
    qed
  qed
qed

lemma RequestCacheDirective_setToken_ages:
  assumes "request_ages_ok d" and "RequestCacheDirective_setToken d t = Inr d'"
  shows "request_ages_ok d'"
  using assms
  by (auto simp: RequestCacheDirective_setToken_def request_ages_ok_def split: if_splits)

lemma RequestCacheDirective_setPair_ages:
  assumes "request_ages_ok d" and "RequestCacheDirective_setPair d k v = Inr d'"
  shows "request_ages_ok d'"
proof -
  have ok: "age_field_ok x" if "validateDeltaSeconds v = (x, None)" for x
    using validateDeltaSeconds_range [OF that] by (simp add: age_field_ok_def)
  obtain x e where vd: "validateDeltaSeconds v = (x, e)" by (cases "validateDeltaSeconds v")
  show ?thesis
  proof (cases e)
    case (Some err)
    with vd assms show ?thesis
      by (auto simp: RequestCacheDirective_setPair_def request_ages_ok_def split: if_splits)
  next
    case None
    with vd ok have "age_field_ok x" by simp
    with None vd assms show ?thesis
      by (auto simp: RequestCacheDirective_setPair_def request_ages_ok_def split: if_splits)
  qed
qed

lemma sint_of_nat_small:
  assumes "m \<le> 2147483647"
  shows "sint (word_of_nat m :: 32 word) = int m"
proof -
  have "sint (word_of_int (int m) :: 32 word) = signed_take_bit (LENGTH(32) - 1) (int m)"
    by (rule sint_sbintrunc')
  also have "\<dots> = int m"
  proof (rule signed_take_bit_int_eq_self)
    have "- (2 ^ (LENGTH(32) - 1)) \<le> (0 :: int)" by simp
    also have "0 \<le> int m" by simp
    finally show "- (2 ^ (LENGTH(32) - 1)) \<le> int m" .
    from assms show "int m < 2 ^ (LENGTH(32) - 1)" by simp
  qed
  finally show ?thesis by simp
qed

lemma isDigit_simps:
  assumes "isDigit c"
  shows "\<not> isWhiteSpace c" and "c \<noteq> CHR '',''" and "c \<noteq> CHR 0x22" and "\<not> stops r c"
  using assms by (auto simp: isDigit_def isWhiteSpace_def stops_def)

lemma parseCacheControlv_body_max_age_digits:
  assumes "n \<noteq> []" and "\<forall>c \<in> set n. isDigit c"
  shows "parseCacheControlv_body ops d (''max-age='' @ n) 0 =
     (case setPair ops d ''max-age'' n of
        Inl err \<Rightarrow> Inl err
      | Inr d' \<Rightarrow> Inr (d', length (''max-age='' @ n)))"
proof -
  define val where "val = ''max-age='' @ n"
  from assms obtain c cs where n: "n = c # cs" and c: "isDigit c" by (cases n) auto
  have len: "length val = 8 + length n" by (simp add: val_def)
  have v0: "val ! 0 = CHR ''m''" and v7: "val ! 7 = CHR ''=''" and v8: "val ! 8 = c"
    by (simp_all add: val_def n)
  have "scanToken (''m'' @ ''ax-age'' @ (''='' @ n)) (length ''m'') = length ''m'' + length ''ax-age''"
    by (rule scanToken_append) (simp_all add: isToken_def isChar_def isCtl_def isSeparator_def)
  then have te: "scanToken val (Suc 0) = 7" by (simp add: val_def)
  have "scanValue (''max-age='' @ n @ []) r (length ''max-age='') = length ''max-age='' + length n"
    for r using assms(2) by (intro scanValue_append) (simp_all add: isDigit_simps)
  then have ve: "scanValue val r 8 = 8 + length n" for r
    by (simp add: val_def eval_nat_numeral)
  then have ve': "scanValue val r (Suc 7) = length val" for r
    by (simp add: len)
  have tok: "ToLower (slice val 0 7) = ''max-age''"
    by (simp add: val_def slice_def ToLower_def lower_byte_def)
  have sl: "slice val 8 (8 + length n) = n" by (simp add: val_def slice_def)
  from assms have lst: "last n \<noteq> CHR '',''"
    using isDigit_simps(2) [of "last n"] by (auto simp: last_in_set)
  have "parseCacheControlv_body ops d val 0 =
     (let tokenEnd = scanToken val (Suc 0); token = ToLower (slice val 0 tokenEnd);
          valueEnd = scanValue val (tokenRequireExtensionFields token) (tokenEnd + 1);
          value0 = slice val (tokenEnd + 1) valueEnd;
          value = (if value0 \<noteq> [] \<and> last value0 = CHR '','' then butlast value0 else value0)
      in case setPair ops d token value of
           Inl err \<Rightarrow> Inl err
         | Inr d' \<Rightarrow> Inr (d', valueEnd))"
  proof (rule parseCacheControlv_body_unquoted)
    show "\<not> isWhiteSpace (val ! 0)" by (simp add: v0 isWhiteSpace_def)
    show "val ! 0 \<noteq> CHR '',''" by (simp add: v0)
    show "scanToken val (Suc 0) + 1 < length val" using assms(1) by (simp add: te len)
    show "val ! scanToken val (Suc 0) = CHR ''=''" by (simp add: te v7)
    show "val ! (scanToken val (Suc 0) + 1) \<noteq> CHR 0x22"
      using isDigit_simps(3) [OF c] by (simp add: te v8)
  qed
  then have "parseCacheControlv_body ops d val 0 =
     (case setPair ops d ''max-age'' n of
        Inl err \<Rightarrow> Inl err
      | Inr d' \<Rightarrow> Inr (d', length val))"
    using lst by (simp add: Let_def te tok ve ve' sl len cong: sum.case_cong)
  then show ?thesis by (simp only: val_def)
qed

lemma isToken_simps:
  assumes "isToken c"
  shows "\<not> isWhiteSpace c" and "c \<noteq> CHR '',''" and "c \<noteq> CHR ''=''" and "c \<noteq> CHR 0x22"
    and "of_char c < (128 :: nat)"
  using assms by (auto simp: isToken_def isSeparator_def isWhiteSpace_def isChar_def)

lemma lower_byte_token:
  assumes "isToken c"
  shows "lower_byte c \<noteq> CHR '',''"
proof (cases "(65 :: nat) \<le> of_char c \<and> of_char c \<le> (90 :: nat)")
  case False
  with isToken_simps(2) [OF assms] show ?thesis by (auto simp: lower_byte_def)
next
  case True
  have "of_char (lower_byte c) = (of_char c + 32 :: nat)"
    using True by (simp add: lower_byte_def)
  with True have "of_char (lower_byte c) \<noteq> (of_char (CHR '','') :: nat)" by simp
  then show ?thesis by metis
qed

lemma ToLower_tokens:
  assumes "\<forall>c \<in> set s. isToken c"
  shows "ToLower s = map lower_byte s"
  using assms by (induction s) (auto simp: ToLower_def dest: isToken_simps(5))

lemma parseCacheControlv_loop_name_equals:
  assumes "name \<noteq> []" and "\<forall>c \<in> set name. isToken c" and "drop index val = name @ ''=''"
  shows "parseCacheControlv_loop ops d val index =
     (case setToken ops d (ToLower name) of
        Inl err \<Rightarrow> Inl err
      | Inr d1 \<Rightarrow> setToken ops d1 ''='')"
proof -
  from assms(1) obtain c t where name: "name = c # t" by (cases name) auto
  from assms(3) have il: "index < length val" by (cases "index < length val") auto
  define pre where "pre = take index val"
  have lp: "length pre = index" using il by (simp add: pre_def)
  have val: "val = pre @ name @ ''=''"
    using assms(3) append_take_drop_id [of index val] by (simp add: pre_def)
  have len: "length val = index + length name + 1" by (simp add: val lp)
  let ?te = "index + length name"
  have vi: "val ! index = c" by (simp add: val name nth_append lp)
  have vte: "val ! ?te = CHR ''=''"
    using lp by (simp add: val nth_append)
  have c: "isToken c" using assms(2) name by simp
  have "scanToken ((pre @ [c]) @ t @ ''='') (length (pre @ [c])) = length (pre @ [c]) + length t"
    using assms(2) name by (intro scanToken_append) (simp_all add: isToken_def isSeparator_def)
  then have te: "scanToken val (Suc index) = ?te" by (simp add: val name lp)
  have "scanToken (val @ [] @ []) (length val) = length val + length ([] :: string)"
    by (rule scanToken_append) simp_all
  then have te2: "scanToken val (Suc ?te) = Suc ?te" by (simp add: len)
  have tok1: "ToLower (slice val index ?te) = ToLower name"
    by (simp add: slice_def val lp)
  have tok2: "ToLower (slice val ?te (Suc ?te)) = ''=''"
    using lp by (simp add: slice_def val ToLower_def lower_byte_def)
  have nc: "ToLower name \<noteq> '',''"
    using lower_byte_token [OF c] ToLower_tokens [OF assms(2)] by (auto simp: name)
  have b1: "parseCacheControlv_body ops d val index =
     (case setToken ops d (ToLower name) of
        Inl err \<Rightarrow> Inl err
      | Inr d' \<Rightarrow> Inr (d', ?te))"
    using parseCacheControlv_body_bare [of val index ops d] isToken_simps(1,2) [OF c] nc
    by (simp add: vi te tok1 len Let_def)
  have b2: "parseCacheControlv_body ops d1 val ?te =
     (case setToken ops d1 ''='' of
        Inl err \<Rightarrow> Inl err
      | Inr d' \<Rightarrow> Inr (d', Suc ?te))" for d1
    using parseCacheControlv_body_bare [of val ?te ops d1]
    by (simp add: vte te2 tok2 len Let_def isWhiteSpace_def)
  have l2: "parseCacheControlv_loop ops d1 val ?te = setToken ops d1 ''=''" for d1
    by (cases "setToken ops d1 ''=''")
       (simp_all add: parseCacheControlv_loop_step len b2 parseCacheControlv_loop_end)
  show ?thesis
    using il by (cases "setToken ops d (ToLower name)")
       (simp_all add: parseCacheControlv_loop_step b1 l2)
qed

lemma parseCacheControlv_abort:
  assumes "parseCacheControlv_iter m ops d0 val 0 = Inr (d, index)" and "index < length val"
    and "parseCacheControlv_body ops d val index = Inl e"
  shows "parseCacheControlv ops d0 val = Inl e"
  using parseCacheControlv_iter_reach [OF assms(1)] assms(2,3)
  by (simp add: parseCacheControlv_loop_step)

lemma parseCacheControlv_body_bare_rejected:
  assumes "\<not> isWhiteSpace (val ! index)" and "val ! index \<noteq> CHR '',''"
    and "\<not> (scanToken val (Suc index) + 1 < length val \<and> val ! scanToken val (Suc index) = CHR ''='')"
    and "ToLower (slice val index (scanToken val (Suc index))) = token"
    and "token \<noteq> '',''" and "setToken ops d token = Inl e"
  shows "parseCacheControlv_body ops d val index = Inl e"
  using parseCacheControlv_body_bare [OF assms(1-3), of ops d] assms(4-6)
  by (simp add: Let_def)

lemma parseCacheControlv_body_pair_rejected:
  assumes "\<not> isWhiteSpace (val ! index)" and "val ! index \<noteq> CHR '',''"
    and "scanToken val (Suc index) + 1 < length val"
    and "val ! scanToken val (Suc index) = CHR ''=''"
    and "val ! (scanToken val (Suc index) + 1) = CHR 0x22
           \<longrightarrow> closing_quote (drop (scanToken val (Suc index) + 2) val)"
    and "ToLower (slice val index (scanToken val (Suc index))) = token"
    and "\<And>v. setPair ops d token v = Inl e"
  shows "parseCacheControlv_body ops d val index = Inl e"
proof (cases "val ! (scanToken val (Suc index) + 1) = CHR 0x22")
  case False
  from parseCacheControlv_body_unquoted [OF assms(1-4) False, of ops d] assms(6,7)
  show ?thesis by (simp add: Let_def)
next
  case True
  let ?te = "scanToken val (Suc index)"
  let ?raw = "drop (?te + 1) val"
  from assms(3) have ne: "?raw \<noteq> []" by simp
  from assms(3) True have hd: "hd ?raw = CHR 0x22" by (simp add: hd_drop_conv_nth)
  have "tl ?raw = drop (?te + 2) val" by (simp add: drop_Suc tl_drop)
  with True assms(5) parseQuotedString_unterminated [OF ne hd]
  have nf: "\<And>v. parseQuotedString ?raw \<noteq> Inr (- 1, v)" by auto
  show ?thesis
  proof (cases "parseQuotedString ?raw")
    case (Inl x)
    with ne hd show ?thesis by (simp add: parseQuotedString_def split: if_splits)
  next
    case (Inr p)
    obtain eaten v where p: "p = (eaten, v)" by (cases p)
    with Inr nf have "eaten \<noteq> - 1" by auto
    with parseCacheControlv_body_quoted [OF assms(1-4) True, of ops d] Inr p assms(6,7)
    show ?thesis by (simp add: Let_def)
  qed
qed

lemma set_fields_apply:
  "set_fields m vals k =
     (if k \<in> set (map (\<lambda>piece. CanonicalHeaderKey (TrimString piece)) vals) then Some True
      else m k)"
  unfolding set_fields_def
  by (induction vals arbitrary: m) auto

lemma set_fields_names:
  "set_fields m (Split v) = (\<lambda>k. if k \<in> field_names v then Some True else m k)"
  by (rule ext) (simp add: set_fields_apply field_names_def)

lemma upper_byte_hyphen: "(upper_byte c = CHR ''-'') = (c = CHR ''-'')"
proof (cases "(97 :: nat) \<le> of_char c \<and> of_char c \<le> (122 :: nat)")
  case False
  then show ?thesis by (auto simp: upper_byte_def)
next
  case True
  then have "(of_char c - 32 :: nat) < 256" by arith
  with True have "of_char (upper_byte c) = (of_char c - 32 :: nat)"
    by (simp add: upper_byte_def)
  with True have "of_char (upper_byte c) \<noteq> (45 :: nat)" by arith
  then have "of_char (upper_byte c) \<noteq> (of_char (CHR ''-'') :: nat)" by simp
  moreover from True have "of_char c \<noteq> (of_char (CHR ''-'') :: nat)" by simp
  ultimately show ?thesis by metis
qed

lemma lower_byte_hyphen: "(lower_byte c = CHR ''-'') = (c = CHR ''-'')"
proof (cases "(65 :: nat) \<le> of_char c \<and> of_char c \<le> (90 :: nat)")
  case False
  then show ?thesis by (auto simp: lower_byte_def)
next
  case True
  then have "of_char (lower_byte c) = (of_char c + 32 :: nat)" by (simp add: lower_byte_def)
  with True have "of_char (lower_byte c) \<noteq> (of_char (CHR ''-'') :: nat)"
    and "of_char c \<noteq> (of_char (CHR ''-'') :: nat)" by simp_all
  then show ?thesis by metis
qed

lemma canonicalMIMEHeaderKey_length: "length (canonicalMIMEHeaderKey up s) = length s"
  by (induction s arbitrary: up) (simp_all add: Let_def)

lemma canonicalMIMEHeaderKey_nth:
  "i < length s \<Longrightarrow>
   canonicalMIMEHeaderKey up s ! i =
     (if (if i = 0 then up else s ! (i - 1) = CHR ''-'') then upper_byte (s ! i)
      else lower_byte (s ! i))"
proof (induction s arbitrary: up i)
  case Nil
  then show ?case by simp
next
  case (Cons c s)
  show ?case
  proof (cases i)
    case 0
    then show ?thesis by (simp add: Let_def)
  next
    case (Suc j)
    with Cons.prems have j: "j < length s" by simp
    have flag: "((if up then upper_byte c else lower_byte c) = CHR ''-'') = (c = CHR ''-'')"
      by (simp add: upper_byte_hyphen lower_byte_hyphen)
    show ?thesis
    proof (cases j)
      case 0
      with Suc j flag Cons.IH [OF j, of "(if up then upper_byte c else lower_byte c) = CHR ''-''"]
      show ?thesis by (simp add: Let_def)
    next
      case (Suc k)
      with \<open>i = Suc j\<close> j
        Cons.IH [OF j, of "(if up then upper_byte c else lower_byte c) = CHR ''-''"]
      show ?thesis by (simp add: Let_def)
    qed
  qed
qed

lemmas loop_eval_simps =
  NewRequestCacheDirective_def NewResponseCacheDirective_def parseCacheControlv_def
  parseCacheControlv_loop.simps make_if_nil_def set_fields_def

lemma TrimString_whitespace:
  assumes "\<forall>c \<in> set v. isWhiteSpace c"
  shows "TrimString v = []"
proof -
  from assms have "\<forall>c \<in> set v. isASCIISpace c"
    by (auto simp: isWhiteSpace_def isASCIISpace_def)
  then have d: "dropWhile isASCIISpace v = []" by simp
  show ?thesis unfolding TrimString_def d by simp
qed

lemma Split_no_comma: "CHR '','' \<notin> set v \<Longrightarrow> Split v = [v]"
  by (induction v) auto

lemma field_names_whitespace:
  assumes "\<forall>c \<in> set v. isWhiteSpace c"
  shows "field_names v = {[]}"
proof -
  from assms have "CHR '','' \<notin> set v" by (auto simp: isWhiteSpace_def)
  then have "Split v = [v]" by (rule Split_no_comma)
  then show ?thesis
    by (simp add: field_names_def TrimString_whitespace [OF assms] CanonicalHeaderKey_def)
qed

lemma set_fields_keeps:
  "m k = Some True \<Longrightarrow> set_fields m vals k = Some True"
  by (simp add: set_fields_apply)

lemma ResponseCacheDirective_setToken_keeps:
  assumes "ResponseCacheDirective_setToken d t = Inr d'"
  shows "ResponseCacheDirective.NoCache d' = ResponseCacheDirective.NoCache d"
    and "Private d' = Private d"
  using assms
  by (auto simp: ResponseCacheDirective_setToken_def split: if_splits)

lemma ResponseCacheDirective_setPair_keeps:
  assumes "ResponseCacheDirective_setPair d k v = Inr d'"
  shows "has_empty_key (ResponseCacheDirective.NoCache d)
           \<Longrightarrow> has_empty_key (ResponseCacheDirective.NoCache d')"
    and "has_empty_key (Private d) \<Longrightarrow> has_empty_key (Private d')"
proof -
  obtain x e where vd: "validateDeltaSeconds v = (x, e)" by (cases "validateDeltaSeconds v")
  have mk: "set_fields (make_if_nil m) vals [] = Some True" if "has_empty_key m" for m vals
    using that
    by (cases m) (simp_all add: has_empty_key_def make_if_nil_def set_fields_keeps)
  show "has_empty_key (ResponseCacheDirective.NoCache d')"
    if "has_empty_key (ResponseCacheDirective.NoCache d)"
    using assms vd mk [OF that] that
    by (cases e)
       (auto simp: ResponseCacheDirective_setPair_def has_empty_key_def split: if_splits)
  show "has_empty_key (Private d')" if "has_empty_key (Private d)"
    using assms vd mk [OF that] that
    by (cases e)
       (auto simp: ResponseCacheDirective_setPair_def has_empty_key_def split: if_splits)
qed

lemma response_keeps_empty_key:
  assumes "parseCacheControlv_loop ResponseCacheDirective_ops d val index = Inr d'"
  shows "has_empty_key (ResponseCacheDirective.NoCache d)
           \<Longrightarrow> has_empty_key (ResponseCacheDirective.NoCache d')"
    and "has_empty_key (Private d) \<Longrightarrow> has_empty_key (Private d')"
proof -
  show "has_empty_key (ResponseCacheDirective.NoCache d')"
    if h: "has_empty_key (ResponseCacheDirective.NoCache d)"
  proof (rule parseCacheControlv_loop_invariant
      [where P = "\<lambda>d. has_empty_key (ResponseCacheDirective.NoCache d)"
         and ops = ResponseCacheDirective_ops and d = d and val = val and index = index])
    show "has_empty_key (ResponseCacheDirective.NoCache d)" by (rule h)
    show "parseCacheControlv_loop ResponseCacheDirective_ops d val index = Inr d'"
      by (rule assms)
  next
    fix x t x'
    assume "has_empty_key (ResponseCacheDirective.NoCache x)"
      and "setToken ResponseCacheDirective_ops x t = Inr x'"
    then show "has_empty_key (ResponseCacheDirective.NoCache x')"
      by (simp add: ResponseCacheDirective_ops_def ResponseCacheDirective_setToken_keeps)
  next
    fix x k v x'
    assume "has_empty_key (ResponseCacheDirective.NoCache x)"
      and "setPair ResponseCacheDirective_ops x k v = Inr x'"
    then show "has_empty_key (ResponseCacheDirective.NoCache x')"
      by (simp add: ResponseCacheDirective_ops_def ResponseCacheDirective_setPair_keeps)
  qed
  show "has_empty_key (Private d')" if h: "has_empty_key (Private d)"
  proof (rule parseCacheControlv_loop_invariant
      [where P = "\<lambda>d. has_empty_key (Private d)"
         and ops = ResponseCacheDirective_ops and d = d and val = val and index = index])
    show "has_empty_key (Private d)" by (rule h)
    show "parseCacheControlv_loop ResponseCacheDirective_ops d val index = Inr d'"
      by (rule assms)
  next
    fix x t x'
    assume "has_empty_key (Private x)" and "setToken ResponseCacheDirective_ops x t = Inr x'"
    then show "has_empty_key (Private x')"
      by (simp add: ResponseCacheDirective_ops_def ResponseCacheDirective_setToken_keeps)
  next
    fix x k v x'
    assume "has_empty_key (Private x)" and "setPair ResponseCacheDirective_ops x k v = Inr x'"
    then show "has_empty_key (Private x')"
      by (simp add: ResponseCacheDirective_ops_def ResponseCacheDirective_setPair_keeps)
  qed
qed

lemma Split_not_Nil: "Split v \<noteq> []"
  by (induction v) (auto split: list.splits)

lemma join_commas_Cons: "join_commas ((c # p) # ps) = c # join_commas (p # ps)"
  by (cases ps) simp_all

lemma join_commas_Split: "join_commas (Split v) = v"
proof (induction v)
  case Nil
  show ?case by simp
next
  case (Cons c v)
  obtain p ps where s: "Split v = p # ps" using Split_not_Nil [of v] by (cases "Split v") auto
  show ?case
  proof (cases "c = CHR '',''")
    case True
    with s Cons.IH show ?thesis by simp
  next
    case False
    with s Cons.IH show ?thesis by (simp add: join_commas_Cons)
  qed
qed

lemma Split_pieces_no_comma: "p \<in> set (Split v) \<Longrightarrow> CHR '','' \<notin> set p"
proof (induction v arbitrary: p)
  case Nil
  then show ?case by simp
next
  case (Cons c v)
  obtain q qs where s: "Split v = q # qs" using Split_not_Nil [of v] by (cases "Split v") auto
  show ?case
  proof (cases "c = CHR '',''")
    case True
    with Cons show ?thesis by auto
  next
    case False
    with Cons.prems s have "p = c # q \<or> p \<in> set qs" by simp
    with False s Cons.IH [of q] Cons.IH [of p] show ?thesis by auto
  qed
qed

lemma TrimString_decomposition:
  "s = takeWhile isASCIISpace s @ TrimString s
         @ rev (takeWhile isASCIISpace (rev (dropWhile isASCIISpace s)))"
proof -
  let ?u = "dropWhile isASCIISpace s"
  have "rev (takeWhile isASCIISpace (rev ?u) @ dropWhile isASCIISpace (rev ?u)) = ?u"
    by (simp only: takeWhile_dropWhile_id rev_rev_ident)
  then have "?u = TrimString s @ rev (takeWhile isASCIISpace (rev ?u))"
    by (simp only: rev_append TrimString_def)
  moreover have "s = takeWhile isASCIISpace s @ ?u" by simp
  ultimately show ?thesis by metis
qed

lemma TrimString_ends:
  assumes "TrimString s \<noteq> []"
  shows "\<not> isASCIISpace (hd (TrimString s))" and "\<not> isASCIISpace (last (TrimString s))"
proof -
  let ?u = "dropWhile isASCIISpace s"
  let ?w = "dropWhile isASCIISpace (rev ?u)"
  from assms have w: "?w \<noteq> []" by (simp add: TrimString_def)
  then have u: "?u \<noteq> []" by (auto dest: set_dropWhileD)
  have "last (TrimString s) = hd ?w" using w by (simp add: TrimString_def last_rev)
  with w show "\<not> isASCIISpace (last (TrimString s))" using hd_dropWhile [of isASCIISpace "rev ?u"] by simp
  have "?u = TrimString s @ rev (takeWhile isASCIISpace (rev ?u))"
    using TrimString_decomposition [of s] by (metis append_eq_append_conv takeWhile_dropWhile_id)
  with assms have "hd (TrimString s) = hd ?u" by (metis hd_append2)
  with u show "\<not> isASCIISpace (hd (TrimString s))" using hd_dropWhile [of isASCIISpace s] by simp
qed

section \<open>Properties of the parser\<close>

text \<open>
  C1. For every non-empty string \<open>n\<close> of decimal digits, \<^verbatim>\<open>NewRequestCacheDirective\<close> applied
  to \<open>max-age=\<close> followed by \<open>n\<close> returns no error and a record whose \<open>MaxAge\<close> is the
  numeric value of \<open>n\<close> when that is at most 2147483647, and 2147483647 when it is more,
  however long \<open>n\<close> is; the other fields are as they are initialised.
\<close>

theorem max_age_of_digits:
  assumes "n \<noteq> []" and "\<forall>c \<in> set n. isDigit c"
  shows "NewRequestCacheDirective (''max-age='' @ n) =
           (Some (RequestCacheDirective_init
                    \<lparr>RequestCacheDirective.MaxAge :=
                       word_of_nat (min (decimal_value n) 2147483647)\<rparr>), None) \<and>
         sint (word_of_nat (min (decimal_value n) 2147483647) :: 32 word)
           = int (min (decimal_value n) 2147483647)"
proof
  let ?val = "''max-age='' @ n"
  let ?d = "RequestCacheDirective_init
              \<lparr>RequestCacheDirective.MaxAge := word_of_nat (min (decimal_value n) 2147483647)\<rparr>"
  have sp: "setPair RequestCacheDirective_ops RequestCacheDirective_init ''max-age'' n = Inr ?d"
    by (simp add: RequestCacheDirective_ops_def RequestCacheDirective_setPair_def Header_defs
          validateDeltaSeconds_digits [OF assms])
  have "parseCacheControlv_body RequestCacheDirective_ops RequestCacheDirective_init ?val 0
        = Inr (?d, length ?val)"
    by (simp only: parseCacheControlv_body_max_age_digits [OF assms] sp sum.case)
  moreover have "0 < length ?val" by simp
  ultimately
  have "parseCacheControlv_loop RequestCacheDirective_ops RequestCacheDirective_init ?val 0
        = parseCacheControlv_loop RequestCacheDirective_ops ?d ?val (length ?val)"
    by (simp add: parseCacheControlv_loop_step)
  also have "\<dots> = Inr ?d" by (rule parseCacheControlv_loop_end) simp
  finally show "NewRequestCacheDirective ?val = (Some ?d, None)"
    by (simp add: NewRequestCacheDirective_def parseCacheControlv_def)
next
  show "sint (word_of_nat (min (decimal_value n) 2147483647) :: 32 word)
          = int (min (decimal_value n) 2147483647)"
    by (rule sint_of_nat_small) simp
qed

theorem max_age_of_digits_witness:
  "NewRequestCacheDirective (''max-age='' @ ''0086400'')
     = (Some (RequestCacheDirective_init\<lparr>RequestCacheDirective.MaxAge := 86400\<rparr>), None) \<and>
   NewRequestCacheDirective (''max-age='' @ ''2147483648'')
     = (Some (RequestCacheDirective_init\<lparr>RequestCacheDirective.MaxAge := 2147483647\<rparr>), None) \<and>
   NewRequestCacheDirective (''max-age='' @ ''18446744073709551617'')
     = (Some (RequestCacheDirective_init\<lparr>RequestCacheDirective.MaxAge := 2147483647\<rparr>), None)"
proof -
  have d: "''0086400'' \<noteq> [] \<and> (\<forall>c \<in> set ''0086400''. isDigit c)"
    "''2147483648'' \<noteq> [] \<and> (\<forall>c \<in> set ''2147483648''. isDigit c)"
    "''18446744073709551617'' \<noteq> [] \<and> (\<forall>c \<in> set ''18446744073709551617''. isDigit c)"
    by (simp_all add: isDigit_def)
  have v: "decimal_value ''0086400'' = 86400" "decimal_value ''2147483648'' = 2147483648"
    "decimal_value ''18446744073709551617'' = 18446744073709551617"
    by (simp_all add: decimal_value_def)
  from d have
    "NewRequestCacheDirective (''max-age='' @ ''0086400'') =
       (Some (RequestCacheDirective_init
                \<lparr>RequestCacheDirective.MaxAge :=
                   word_of_nat (min (decimal_value ''0086400'') 2147483647)\<rparr>), None)"
    "NewRequestCacheDirective (''max-age='' @ ''2147483648'') =
       (Some (RequestCacheDirective_init
                \<lparr>RequestCacheDirective.MaxAge :=
                   word_of_nat (min (decimal_value ''2147483648'') 2147483647)\<rparr>), None)"
    "NewRequestCacheDirective (''max-age='' @ ''18446744073709551617'') =
       (Some (RequestCacheDirective_init
                \<lparr>RequestCacheDirective.MaxAge :=
                   word_of_nat (min (decimal_value ''18446744073709551617'') 2147483647)\<rparr>), None)"
    using max_age_of_digits by blast+
  then show ?thesis by (simp add: v)
qed

text \<open>
  C2. For the request sink: \<open>max-age\<close>, \<open>max-stale\<close> and \<open>min-fresh\<close> as a bare token are
  rejected with the missing-delta-seconds error of that name, and \<open>no-cache\<close>, \<open>no-store\<close> and
  \<open>only-if-cached\<close> with a value are rejected with the does-not-accept-a-value error of that
  name, whatever the state of the sink and the value. At any scan position the loop of
  \<^verbatim>\<open>NewRequestCacheDirective\<close> reaches, such a name in that form (bare; or with an unquoted
  value, or a quoted one that has its closing quote) makes the constructor return that error
  and a \<^verbatim>\<open>nil\<close> record. The input \<open>no-cache\<close> is parsed without error, with \<open>NoCache\<close> set.
\<close>

theorem request_validation_table:
  assumes "parseCacheControlv_iter m RequestCacheDirective_ops RequestCacheDirective_init val 0
             = Inr (d, index)"
    and "index < length val"
    and "\<not> isWhiteSpace (val ! index)" and "val ! index \<noteq> CHR '',''"
    and "ToLower (slice val index (scanToken val (Suc index))) = token"
  shows
    "RequestCacheDirective_setToken d' ''max-age'' = Inl ErrMaxAgeDeltaSeconds \<and>
     RequestCacheDirective_setToken d' ''max-stale'' = Inl ErrMaxStaleDeltaSeconds \<and>
     RequestCacheDirective_setToken d' ''min-fresh'' = Inl ErrMinFreshDeltaSeconds \<and>
     RequestCacheDirective_setPair d' ''no-cache'' v = Inl ErrNoCacheDirectiveValue \<and>
     RequestCacheDirective_setPair d' ''no-store'' v = Inl ErrNoStoreDirectiveValue \<and>
     RequestCacheDirective_setPair d' ''only-if-cached'' v = Inl ErrOnlyIfCachedDirectiveValue \<and>
     (\<not> (scanToken val (Suc index) + 1 < length val \<and>
          val ! scanToken val (Suc index) = CHR ''='') \<longrightarrow>
        (token = ''max-age'' \<longrightarrow>
           NewRequestCacheDirective val = (None, Some ErrMaxAgeDeltaSeconds)) \<and>
        (token = ''max-stale'' \<longrightarrow>
           NewRequestCacheDirective val = (None, Some ErrMaxStaleDeltaSeconds)) \<and>
        (token = ''min-fresh'' \<longrightarrow>
           NewRequestCacheDirective val = (None, Some ErrMinFreshDeltaSeconds))) \<and>
     (scanToken val (Suc index) + 1 < length val \<and>
      val ! scanToken val (Suc index) = CHR ''='' \<and>
      (val ! (scanToken val (Suc index) + 1) = CHR 0x22
         \<longrightarrow> closing_quote (drop (scanToken val (Suc index) + 2) val)) \<longrightarrow>
        (token = ''no-cache'' \<longrightarrow>
           NewRequestCacheDirective val = (None, Some ErrNoCacheDirectiveValue)) \<and>
        (token = ''no-store'' \<longrightarrow>
           NewRequestCacheDirective val = (None, Some ErrNoStoreDirectiveValue)) \<and>
        (token = ''only-if-cached'' \<longrightarrow>
           NewRequestCacheDirective val = (None, Some ErrOnlyIfCachedDirectiveValue))) \<and>
     NewRequestCacheDirective ''no-cache''
       = (Some (RequestCacheDirective_init\<lparr>RequestCacheDirective.NoCache := True\<rparr>), None)"
proof -
  have tk: "RequestCacheDirective_setToken x ''max-age'' = Inl ErrMaxAgeDeltaSeconds"
    "RequestCacheDirective_setToken x ''max-stale'' = Inl ErrMaxStaleDeltaSeconds"
    "RequestCacheDirective_setToken x ''min-fresh'' = Inl ErrMinFreshDeltaSeconds" for x
    by (simp_all add: RequestCacheDirective_setToken_def Header_defs)
  have pr: "RequestCacheDirective_setPair x ''no-cache'' w = Inl ErrNoCacheDirectiveValue"
    "RequestCacheDirective_setPair x ''no-store'' w = Inl ErrNoStoreDirectiveValue"
    "RequestCacheDirective_setPair x ''only-if-cached'' w = Inl ErrOnlyIfCachedDirectiveValue"
    for x w
    by (simp_all add: RequestCacheDirective_setPair_def Header_defs)
  have fail: "NewRequestCacheDirective val = (None, Some e)"
    if "parseCacheControlv_body RequestCacheDirective_ops d val index = Inl e" for e
    using parseCacheControlv_abort [OF assms(1,2) that]
    by (simp add: NewRequestCacheDirective_def)
  have bare: "NewRequestCacheDirective val = (None, Some e)"
    if "\<not> (scanToken val (Suc index) + 1 < length val \<and>
            val ! scanToken val (Suc index) = CHR ''='')"
      and "token \<noteq> '',''" and "RequestCacheDirective_setToken d token = Inl e" for e
    using that
    by (intro fail parseCacheControlv_body_bare_rejected [OF assms(3,4) _ assms(5)])
       (simp_all add: RequestCacheDirective_ops_def)
  have pair: "NewRequestCacheDirective val = (None, Some e)"
    if "scanToken val (Suc index) + 1 < length val"
      and "val ! scanToken val (Suc index) = CHR ''=''"
      and "val ! (scanToken val (Suc index) + 1) = CHR 0x22
             \<longrightarrow> closing_quote (drop (scanToken val (Suc index) + 2) val)"
      and "\<And>w. RequestCacheDirective_setPair d token w = Inl e" for e
    using that
    by (intro fail parseCacheControlv_body_pair_rejected [OF assms(3,4) _ _ _ assms(5)])
       (simp_all add: RequestCacheDirective_ops_def)
  have nc: "NewRequestCacheDirective ''no-cache''
       = (Some (RequestCacheDirective_init\<lparr>RequestCacheDirective.NoCache := True\<rparr>), None)"
    by code_simp
  show ?thesis
  proof (intro conjI impI)
    show "NewRequestCacheDirective ''no-cache''
       = (Some (RequestCacheDirective_init\<lparr>RequestCacheDirective.NoCache := True\<rparr>), None)"
      by (rule nc)
  qed (use tk pr in \<open>auto intro: bare pair\<close>)
qed

theorem request_validation_table_witness:
  "NewRequestCacheDirective ''no-store, max-age'' = (None, Some ErrMaxAgeDeltaSeconds) \<and>
   NewRequestCacheDirective ''no-cache=x'' = (None, Some ErrNoCacheDirectiveValue) \<and>
   NewRequestCacheDirective (''only-if-cached='' @ [CHR 0x22, CHR ''1'', CHR 0x22])
     = (None, Some ErrOnlyIfCachedDirectiveValue)"
proof -
  let ?a = "''no-store, max-age''" and ?b = "''no-cache=x''"
  let ?c = "''only-if-cached='' @ [CHR 0x22, CHR ''1'', CHR 0x22]"
  have ra: "parseCacheControlv_iter 3 RequestCacheDirective_ops RequestCacheDirective_init ?a 0
              = Inr (RequestCacheDirective_init\<lparr>RequestCacheDirective.NoStore := True\<rparr>, 10)"
    by code_simp
  have a1: "10 < length ?a" and a2: "\<not> isWhiteSpace (?a ! 10)" and a3: "?a ! 10 \<noteq> CHR '',''"
    and a4: "ToLower (slice ?a 10 (scanToken ?a (Suc 10))) = ''max-age''"
    and a5: "\<not> (scanToken ?a (Suc 10) + 1 < length ?a \<and> ?a ! scanToken ?a (Suc 10) = CHR ''='')"
    by code_simp+
  note A = request_validation_table [OF ra a1 a2 a3 a4]
  note A7 = A [THEN conjunct2, THEN conjunct2, THEN conjunct2, THEN conjunct2, THEN conjunct2,
               THEN conjunct2, THEN conjunct1]
  have a: "NewRequestCacheDirective ?a = (None, Some ErrMaxAgeDeltaSeconds)"
    by (rule A7 [THEN mp, OF a5, THEN conjunct1, THEN mp, OF refl])
  have rb: "parseCacheControlv_iter 0 RequestCacheDirective_ops RequestCacheDirective_init ?b 0
              = Inr (RequestCacheDirective_init, 0)"
    by simp
  have b1: "0 < length ?b" and b2: "\<not> isWhiteSpace (?b ! 0)" and b3: "?b ! 0 \<noteq> CHR '',''"
    and b4: "ToLower (slice ?b 0 (scanToken ?b (Suc 0))) = ''no-cache''"
    and b5: "scanToken ?b (Suc 0) + 1 < length ?b \<and> ?b ! scanToken ?b (Suc 0) = CHR ''='' \<and>
             (?b ! (scanToken ?b (Suc 0) + 1) = CHR 0x22
                \<longrightarrow> closing_quote (drop (scanToken ?b (Suc 0) + 2) ?b))"
    by code_simp+
  note B = request_validation_table [OF rb b1 b2 b3 b4]
  note B8 = B [THEN conjunct2, THEN conjunct2, THEN conjunct2, THEN conjunct2, THEN conjunct2,
               THEN conjunct2, THEN conjunct2, THEN conjunct1]
  have b: "NewRequestCacheDirective ?b = (None, Some ErrNoCacheDirectiveValue)"
    by (rule B8 [THEN mp, OF b5, THEN conjunct1, THEN mp, OF refl])
  have rc: "parseCacheControlv_iter 0 RequestCacheDirective_ops RequestCacheDirective_init ?c 0
              = Inr (RequestCacheDirective_init, 0)"
    by simp
  have c1: "0 < length ?c" and c2: "\<not> isWhiteSpace (?c ! 0)" and c3: "?c ! 0 \<noteq> CHR '',''"
    and c4: "ToLower (slice ?c 0 (scanToken ?c (Suc 0))) = ''only-if-cached''"
    and c5: "scanToken ?c (Suc 0) + 1 < length ?c \<and> ?c ! scanToken ?c (Suc 0) = CHR ''='' \<and>
             (?c ! (scanToken ?c (Suc 0) + 1) = CHR 0x22
                \<longrightarrow> closing_quote (drop (scanToken ?c (Suc 0) + 2) ?c))"
    by code_simp+
  note C = request_validation_table [OF rc c1 c2 c3 c4]
  note C8 = C [THEN conjunct2, THEN conjunct2, THEN conjunct2, THEN conjunct2, THEN conjunct2,
               THEN conjunct2, THEN conjunct2, THEN conjunct1]
  have c: "NewRequestCacheDirective ?c = (None, Some ErrOnlyIfCachedDirectiveValue)"
    by (rule C8 [THEN mp, OF c5, THEN conjunct2, THEN conjunct2, THEN mp, OF refl])
  from a b c show ?thesis by (intro conjI)
qed

text \<open>
  C3. At every scan position that the loop of a constructor reaches, that is with no
  directive before it rejected, where a name is followed by \<open>=\<close> and a quoted value that has
  no closing quote before the end of the input (a value that ends in a backslash with no
  byte after it included), that constructor returns the missing-closing-quote error and a
  \<^verbatim>\<open>nil\<close> record. The parse stops at its first error: an input whose unterminated value
  stands after a directive that the sink rejects returns that directive's error.
\<close>

theorem unterminated_quote_aborts:
  assumes "index < length val"
    and "\<not> isWhiteSpace (val ! index)" and "val ! index \<noteq> CHR '',''"
    and "scanToken val (Suc index) + 1 < length val"
    and "val ! scanToken val (Suc index) = CHR ''=''"
    and "val ! (scanToken val (Suc index) + 1) = CHR 0x22"
    and "\<not> closing_quote (drop (scanToken val (Suc index) + 2) val)"
  shows
    "(parseCacheControlv_iter n RequestCacheDirective_ops RequestCacheDirective_init val 0
        = Inr (d, index)
      \<longrightarrow> NewRequestCacheDirective val = (None, Some ErrMissingClosingQuote)) \<and>
     (parseCacheControlv_iter n' ResponseCacheDirective_ops ResponseCacheDirective_init val 0
        = Inr (d', index)
      \<longrightarrow> NewResponseCacheDirective val = (None, Some ErrMissingClosingQuote))"
proof (intro conjI impI)
  assume "parseCacheControlv_iter n RequestCacheDirective_ops RequestCacheDirective_init val 0
            = Inr (d, index)"
  then have "parseCacheControlv RequestCacheDirective_ops RequestCacheDirective_init val
             = parseCacheControlv_loop RequestCacheDirective_ops d val index"
    by (rule parseCacheControlv_iter_reach)
  also have "\<dots> = Inl ErrMissingClosingQuote"
    using assms(1)
    by (simp add: parseCacheControlv_loop_step parseCacheControlv_body_unterminated [OF assms(2-7)])
  finally show "NewRequestCacheDirective val = (None, Some ErrMissingClosingQuote)"
    by (simp add: NewRequestCacheDirective_def)
next
  assume "parseCacheControlv_iter n' ResponseCacheDirective_ops ResponseCacheDirective_init val 0
            = Inr (d', index)"
  then have "parseCacheControlv ResponseCacheDirective_ops ResponseCacheDirective_init val
             = parseCacheControlv_loop ResponseCacheDirective_ops d' val index"
    by (rule parseCacheControlv_iter_reach)
  also have "\<dots> = Inl ErrMissingClosingQuote"
    using assms(1)
    by (simp add: parseCacheControlv_loop_step parseCacheControlv_body_unterminated [OF assms(2-7)])
  finally show "NewResponseCacheDirective val = (None, Some ErrMissingClosingQuote)"
    by (simp add: NewResponseCacheDirective_def)
qed

theorem unterminated_quote_aborts_witness:
  "parseCacheControlv_iter 3 RequestCacheDirective_ops RequestCacheDirective_init
     (''max-age=5, private='' @ [CHR 0x22, CHR ''a'', CHR ''b'', CHR 0x5C]) 0
     = Inr (RequestCacheDirective_init\<lparr>RequestCacheDirective.MaxAge := 5\<rparr>, 11) \<and>
   NewRequestCacheDirective (''max-age=5, private='' @ [CHR 0x22, CHR ''a'', CHR ''b'', CHR 0x5C])
     = (None, Some ErrMissingClosingQuote) \<and>
   parseCacheControlv_iter 3 ResponseCacheDirective_ops ResponseCacheDirective_init
     (''max-age=5, private='' @ [CHR 0x22, CHR ''a'', CHR ''b'', CHR 0x5C]) 0
     = Inr (ResponseCacheDirective_init\<lparr>ResponseCacheDirective.MaxAge := 5\<rparr>, 11) \<and>
   NewResponseCacheDirective (''max-age=5, private='' @ [CHR 0x22, CHR ''a'', CHR ''b'', CHR 0x5C])
     = (None, Some ErrMissingClosingQuote)"
proof -
  let ?val = "''max-age=5, private='' @ [CHR 0x22, CHR ''a'', CHR ''b'', CHR 0x5C]"
  have h1: "11 < length ?val" by simp
  have h2: "\<not> isWhiteSpace (?val ! 11)" by code_simp
  have h3: "?val ! 11 \<noteq> CHR '',''" by code_simp
  have h4: "scanToken ?val (Suc 11) + 1 < length ?val" by code_simp
  have h5: "?val ! scanToken ?val (Suc 11) = CHR ''=''" by code_simp
  have h6: "?val ! (scanToken ?val (Suc 11) + 1) = CHR 0x22" by code_simp
  have h7: "\<not> closing_quote (drop (scanToken ?val (Suc 11) + 2) ?val)" by code_simp
  have r1: "parseCacheControlv_iter 3 RequestCacheDirective_ops RequestCacheDirective_init ?val 0
              = Inr (RequestCacheDirective_init\<lparr>RequestCacheDirective.MaxAge := 5\<rparr>, 11)"
    by code_simp
  have r2: "parseCacheControlv_iter 3 ResponseCacheDirective_ops ResponseCacheDirective_init ?val 0
              = Inr (ResponseCacheDirective_init\<lparr>ResponseCacheDirective.MaxAge := 5\<rparr>, 11)"
    by (simp add: eval_simps)
  from unterminated_quote_aborts [OF h1 h2 h3 h4 h5 h6 h7, of 3 _ 3] r1 r2
  show ?thesis by blast
qed

text \<open>
  An unterminated quoted value after a bare \<open>max-age\<close> gives the error of \<open>max-age\<close> from
  both constructors; after \<open>no-cache=1\<close> the request constructor gives the error of
  \<open>no-cache\<close>.
\<close>

theorem unterminated_quote_counterexample:
  "NewRequestCacheDirective (''max-age, x='' @ [CHR 0x22] @ ''abc'')
     = (None, Some ErrMaxAgeDeltaSeconds) \<and>
   NewResponseCacheDirective (''max-age, x='' @ [CHR 0x22] @ ''abc'')
     = (None, Some ErrMaxAgeDeltaSeconds) \<and>
   NewRequestCacheDirective (''no-cache=1, x='' @ [CHR 0x22] @ ''abc'')
     = (None, Some ErrNoCacheDirectiveValue) \<and>
   closing_quote ''abc'' = False"
proof (intro conjI)
  show "NewRequestCacheDirective (''max-age, x='' @ [CHR 0x22] @ ''abc'')
     = (None, Some ErrMaxAgeDeltaSeconds)" by code_simp
  show "NewResponseCacheDirective (''max-age, x='' @ [CHR 0x22] @ ''abc'')
     = (None, Some ErrMaxAgeDeltaSeconds)"
    by (simp add: loop_eval_simps eval_simps)
  show "NewRequestCacheDirective (''no-cache=1, x='' @ [CHR 0x22] @ ''abc'')
     = (None, Some ErrNoCacheDirectiveValue)" by code_simp
  show "closing_quote ''abc'' = False" by simp
qed

text \<open>
  C4. For the response sink, \<open>no-cache\<close> and \<open>private\<close> as a bare token set the presence
  flag and nothing else, so that the parse of the bare name alone leaves the field-name map
  \<^verbatim>\<open>nil\<close>. With a value they set the presence flag and store \<open>true\<close> under the canonical
  form of each trimmed piece of the value, and every key the map had before stays as it was;
  a \<^verbatim>\<open>nil\<close> map counts as empty, and a name that occurs twice is one key. The pieces are the
  value split at its commas: no piece holds a comma, and joined with commas they are the
  value again. Trimming a piece removes a run of space, tab, line feed and carriage return
  at each end, and what is left neither begins nor ends with one of these. The canonical
  form of a piece made of header field bytes has the same length, the first byte of each
  hyphen-separated segment in upper case and the other bytes in lower case; a piece with any
  other byte is kept as it is.
\<close>

theorem response_field_names:
  "ResponseCacheDirective_setToken d ''no-cache'' = Inr (d\<lparr>NoCachePresent := True\<rparr>) \<and>
   ResponseCacheDirective_setToken d ''private'' = Inr (d\<lparr>PrivatePresent := True\<rparr>) \<and>
   ResponseCacheDirective_setPair d ''no-cache'' v =
     Inr (d\<lparr>NoCachePresent := True,
            ResponseCacheDirective.NoCache :=
              Some (\<lambda>k. if k \<in> (\<lambda>p. CanonicalHeaderKey (TrimString p)) ` set (Split v)
                         then Some True
                         else (case ResponseCacheDirective.NoCache d of
                                 None \<Rightarrow> None | Some m \<Rightarrow> m k))\<rparr>) \<and>
   ResponseCacheDirective_setPair d ''private'' v =
     Inr (d\<lparr>PrivatePresent := True,
            Private :=
              Some (\<lambda>k. if k \<in> (\<lambda>p. CanonicalHeaderKey (TrimString p)) ` set (Split v)
                         then Some True
                         else (case Private d of None \<Rightarrow> None | Some m \<Rightarrow> m k))\<rparr>) \<and>
   Split v \<noteq> [] \<and>
   join_commas (Split v) = v \<and>
   (\<forall>p \<in> set (Split v). CHR '','' \<notin> set p) \<and>
   (\<exists>l r. s = l @ TrimString s @ r \<and>
           set l \<subseteq> {CHR '' '', CHR 0x09, CHR 0x0A, CHR 0x0D} \<and>
           set r \<subseteq> {CHR '' '', CHR 0x09, CHR 0x0A, CHR 0x0D}) \<and>
   (TrimString s \<noteq> [] \<longrightarrow>
      hd (TrimString s) \<notin> {CHR '' '', CHR 0x09, CHR 0x0A, CHR 0x0D} \<and>
      last (TrimString s) \<notin> {CHR '' '', CHR 0x09, CHR 0x0A, CHR 0x0D}) \<and>
   ((\<forall>c \<in> set f. validHeaderFieldByte c) \<and> i < length f \<longrightarrow>
      length (CanonicalHeaderKey f) = length f \<and>
      CanonicalHeaderKey f ! i =
        (if i = 0 \<or> f ! (i - 1) = CHR ''-'' then upper_byte (f ! i) else lower_byte (f ! i))) \<and>
   (\<not> (\<forall>c \<in> set f. validHeaderFieldByte c) \<longrightarrow> CanonicalHeaderKey f = f) \<and>
   NewResponseCacheDirective ''no-cache''
     = (Some (ResponseCacheDirective_init\<lparr>NoCachePresent := True\<rparr>), None) \<and>
   NewResponseCacheDirective ''private''
     = (Some (ResponseCacheDirective_init\<lparr>PrivatePresent := True\<rparr>), None) \<and>
   NewResponseCacheDirective (''private='' @ [CHR 0x22] @ ''X-Foo, X-Bar'' @ [CHR 0x22])
     = (Some (ResponseCacheDirective_init
                \<lparr>PrivatePresent := True,
                 Private := Some [''X-Foo'' \<mapsto> True, ''X-Bar'' \<mapsto> True]\<rparr>), None) \<and>
   NewResponseCacheDirective ''no-cache=x-foo,X-FOO''
     = (Some (ResponseCacheDirective_init
                \<lparr>NoCachePresent := True,
                 ResponseCacheDirective.NoCache := Some [''X-Foo'' \<mapsto> True]\<rparr>), None) \<and>
   NewResponseCacheDirective ''no-cache=a, no-cache=b''
     = (Some (ResponseCacheDirective_init
                \<lparr>NoCachePresent := True,
                 ResponseCacheDirective.NoCache := Some [''A'' \<mapsto> True, ''B'' \<mapsto> True]\<rparr>),
        None) \<and>
   NewResponseCacheDirective (''private='' @ [CHR 0x22] @ '' a b , c-d '' @ [CHR 0x22])
     = (Some (ResponseCacheDirective_init
                \<lparr>PrivatePresent := True,
                 Private := Some [''a b'' \<mapsto> True, ''C-D'' \<mapsto> True]\<rparr>), None)"
proof (intro conjI impI)
  show "ResponseCacheDirective_setToken d ''no-cache'' = Inr (d\<lparr>NoCachePresent := True\<rparr>)"
    by (simp add: ResponseCacheDirective_setToken_def Header_defs)
  show "ResponseCacheDirective_setToken d ''private'' = Inr (d\<lparr>PrivatePresent := True\<rparr>)"
    by (simp add: ResponseCacheDirective_setToken_def Header_defs)
  have old: "make_if_nil m k = (case m of None \<Rightarrow> None | Some m' \<Rightarrow> m' k)" for m k
    by (cases m) (simp_all add: make_if_nil_def)
  have sf: "set_fields (make_if_nil m) (Split v) =
      (\<lambda>k. if k \<in> (\<lambda>p. CanonicalHeaderKey (TrimString p)) ` set (Split v) then Some True
            else (case m of None \<Rightarrow> None | Some m' \<Rightarrow> m' k))" for m
    by (rule ext) (simp add: set_fields_apply old)
  show "ResponseCacheDirective_setPair d ''no-cache'' v =
     Inr (d\<lparr>NoCachePresent := True,
            ResponseCacheDirective.NoCache :=
              Some (\<lambda>k. if k \<in> (\<lambda>p. CanonicalHeaderKey (TrimString p)) ` set (Split v)
                         then Some True
                         else (case ResponseCacheDirective.NoCache d of
                                 None \<Rightarrow> None | Some m \<Rightarrow> m k))\<rparr>)"
    by (simp add: ResponseCacheDirective_setPair_def Header_defs sf)
  show "ResponseCacheDirective_setPair d ''private'' v =
     Inr (d\<lparr>PrivatePresent := True,
            Private :=
              Some (\<lambda>k. if k \<in> (\<lambda>p. CanonicalHeaderKey (TrimString p)) ` set (Split v)
                         then Some True
                         else (case Private d of None \<Rightarrow> None | Some m \<Rightarrow> m k))\<rparr>)"
    by (simp add: ResponseCacheDirective_setPair_def Header_defs sf)
next
  show "Split v \<noteq> []" by (rule Split_not_Nil)
  show "join_commas (Split v) = v" by (rule join_commas_Split)
  show "\<forall>p \<in> set (Split v). CHR '','' \<notin> set p" using Split_pieces_no_comma by blast
next
  have sp: "set (takeWhile isASCIISpace xs) \<subseteq> {CHR '' '', CHR 0x09, CHR 0x0A, CHR 0x0D}" for xs
    by (auto dest: set_takeWhileD simp: isASCIISpace_def)
  have "s = takeWhile isASCIISpace s @ TrimString s
            @ rev (takeWhile isASCIISpace (rev (dropWhile isASCIISpace s)))"
    by (rule TrimString_decomposition)
  moreover have "set (rev (takeWhile isASCIISpace (rev (dropWhile isASCIISpace s))))
                 \<subseteq> {CHR '' '', CHR 0x09, CHR 0x0A, CHR 0x0D}"
    using sp [of "rev (dropWhile isASCIISpace s)"] by simp
  ultimately show "\<exists>l r. s = l @ TrimString s @ r \<and>
           set l \<subseteq> {CHR '' '', CHR 0x09, CHR 0x0A, CHR 0x0D} \<and>
           set r \<subseteq> {CHR '' '', CHR 0x09, CHR 0x0A, CHR 0x0D}"
    using sp [of s] by blast
next
  assume ne: "TrimString s \<noteq> []"
  from TrimString_ends(1) [OF ne]
  show "hd (TrimString s) \<notin> {CHR '' '', CHR 0x09, CHR 0x0A, CHR 0x0D}"
    by (auto simp: isASCIISpace_def)
  from TrimString_ends(2) [OF ne]
  show "last (TrimString s) \<notin> {CHR '' '', CHR 0x09, CHR 0x0A, CHR 0x0D}"
    by (auto simp: isASCIISpace_def)
next
  assume a: "(\<forall>c \<in> set f. validHeaderFieldByte c) \<and> i < length f"
  then show "length (CanonicalHeaderKey f) = length f"
    by (simp add: CanonicalHeaderKey_def canonicalMIMEHeaderKey_length)
  from a show "CanonicalHeaderKey f ! i =
        (if i = 0 \<or> f ! (i - 1) = CHR ''-'' then upper_byte (f ! i) else lower_byte (f ! i))"
    by (simp add: CanonicalHeaderKey_def canonicalMIMEHeaderKey_nth)
next
  assume "\<not> (\<forall>c \<in> set f. validHeaderFieldByte c)"
  then show "CanonicalHeaderKey f = f" by (auto simp: CanonicalHeaderKey_def)
next
  show "NewResponseCacheDirective ''no-cache''
     = (Some (ResponseCacheDirective_init\<lparr>NoCachePresent := True\<rparr>), None)"
    by (simp add: loop_eval_simps eval_simps)
  show "NewResponseCacheDirective ''private''
     = (Some (ResponseCacheDirective_init\<lparr>PrivatePresent := True\<rparr>), None)"
    by (simp add: loop_eval_simps eval_simps)
next
  have s: "Split ''X-Foo, X-Bar'' = [''X-Foo'', '' X-Bar'']" by code_simp
  have k: "CanonicalHeaderKey (TrimString ''X-Foo'') = ''X-Foo''"
    "CanonicalHeaderKey (TrimString '' X-Bar'') = ''X-Bar''" by code_simp+
  show "NewResponseCacheDirective (''private='' @ [CHR 0x22] @ ''X-Foo, X-Bar'' @ [CHR 0x22])
     = (Some (ResponseCacheDirective_init
                \<lparr>PrivatePresent := True,
                 Private := Some [''X-Foo'' \<mapsto> True, ''X-Bar'' \<mapsto> True]\<rparr>), None)"
    by (simp add: loop_eval_simps eval_simps s k)
next
  have s: "Split ''x-foo,X-FOO'' = [''x-foo'', ''X-FOO'']" by code_simp
  have k: "CanonicalHeaderKey (TrimString ''x-foo'') = ''X-Foo''"
    "CanonicalHeaderKey (TrimString ''X-FOO'') = ''X-Foo''" by code_simp+
  show "NewResponseCacheDirective ''no-cache=x-foo,X-FOO''
     = (Some (ResponseCacheDirective_init
                \<lparr>NoCachePresent := True,
                 ResponseCacheDirective.NoCache := Some [''X-Foo'' \<mapsto> True]\<rparr>), None)"
    by (simp add: loop_eval_simps eval_simps s k)
next
  have s: "Split ''a'' = [''a'']" "Split ''b'' = [''b'']" by code_simp+
  have k: "CanonicalHeaderKey (TrimString ''a'') = ''A''"
    "CanonicalHeaderKey (TrimString ''b'') = ''B''" by code_simp+
  show "NewResponseCacheDirective ''no-cache=a, no-cache=b''
     = (Some (ResponseCacheDirective_init
                \<lparr>NoCachePresent := True,
                 ResponseCacheDirective.NoCache := Some [''A'' \<mapsto> True, ''B'' \<mapsto> True]\<rparr>),
        None)"
    by (simp add: loop_eval_simps eval_simps s k)
next
  have s: "Split '' a b , c-d '' = ['' a b '', '' c-d '']" by code_simp
  have k: "CanonicalHeaderKey (TrimString '' a b '') = ''a b''"
    "CanonicalHeaderKey (TrimString '' c-d '') = ''C-D''" by code_simp+
  show "NewResponseCacheDirective (''private='' @ [CHR 0x22] @ '' a b , c-d '' @ [CHR 0x22])
     = (Some (ResponseCacheDirective_init
                \<lparr>PrivatePresent := True,
                 Private := Some [''a b'' \<mapsto> True, ''C-D'' \<mapsto> True]\<rparr>), None)"
    by (simp add: loop_eval_simps eval_simps s k)
qed

theorem response_field_names_witness:
  "Split ''a, b'' = [''a'', '' b''] \<and> CHR '','' \<notin> set '' b'' \<and>
   TrimString '' x-foo '' = ''x-foo'' \<and>
   hd (TrimString '' x-foo '') \<notin> {CHR '' '', CHR 0x09, CHR 0x0A, CHR 0x0D} \<and>
   last (TrimString '' x-foo '') \<notin> {CHR '' '', CHR 0x09, CHR 0x0A, CHR 0x0D} \<and>
   2 < length ''x-foo'' \<and>
   length (CanonicalHeaderKey ''x-foo'') = length ''x-foo'' \<and>
   CanonicalHeaderKey ''x-foo'' ! 2 = upper_byte (CHR ''f'') \<and>
   CanonicalHeaderKey ''x-foo'' ! 3 = lower_byte (CHR ''o'') \<and>
   validHeaderFieldByte (CHR '' '') = False \<and>
   CanonicalHeaderKey ''a b'' = ''a b''"
proof -
  have sp: "Split ''a, b'' = [''a'', '' b'']" by code_simp
  then have mem: "'' b'' \<in> set (Split ''a, b'')" by simp
  have tr: "TrimString '' x-foo '' = ''x-foo''" by code_simp
  then have ne: "TrimString '' x-foo '' \<noteq> []" by simp
  have va: "(\<forall>c \<in> set ''x-foo''. validHeaderFieldByte c) \<and> 2 < length ''x-foo''"
    "(\<forall>c \<in> set ''x-foo''. validHeaderFieldByte c) \<and> 3 < length ''x-foo''"
    by (simp_all add: validHeaderFieldByte_def)
  have nv: "validHeaderFieldByte (CHR '' '') = False" by (simp add: validHeaderFieldByte_def)
  then have inv: "\<not> (\<forall>c \<in> set ''a b''. validHeaderFieldByte c)" by simp
  note T2 = response_field_names
    [where v = "''a, b''" and s = "'' x-foo ''" and f = "''x-foo''" and i = 2]
  note T3 = response_field_names [where f = "''x-foo''" and i = 3]
  note T4 = response_field_names [where f = "''a b''"]
  note pieces = T2 [THEN conjunct2, THEN conjunct2, THEN conjunct2, THEN conjunct2,
      THEN conjunct2, THEN conjunct2, THEN conjunct1, THEN bspec, OF mem]
  note ends = T2 [THEN conjunct2, THEN conjunct2, THEN conjunct2, THEN conjunct2,
      THEN conjunct2, THEN conjunct2, THEN conjunct2, THEN conjunct2, THEN conjunct1,
      THEN mp, OF ne]
  note title2 = T2 [THEN conjunct2, THEN conjunct2, THEN conjunct2, THEN conjunct2,
      THEN conjunct2, THEN conjunct2, THEN conjunct2, THEN conjunct2, THEN conjunct2,
      THEN conjunct1, THEN mp, OF va(1)]
  note title3 = T3 [THEN conjunct2, THEN conjunct2, THEN conjunct2, THEN conjunct2,
      THEN conjunct2, THEN conjunct2, THEN conjunct2, THEN conjunct2, THEN conjunct2,
      THEN conjunct1, THEN mp, OF va(2)]
  note same = T4 [THEN conjunct2, THEN conjunct2, THEN conjunct2, THEN conjunct2,
      THEN conjunct2, THEN conjunct2, THEN conjunct2, THEN conjunct2, THEN conjunct2,
      THEN conjunct2, THEN conjunct1, THEN mp, OF inv]
  from title2 title3 have t: "length (CanonicalHeaderKey ''x-foo'') = length ''x-foo''"
    "CanonicalHeaderKey ''x-foo'' ! 2 = upper_byte (CHR ''f'')"
    "CanonicalHeaderKey ''x-foo'' ! 3 = lower_byte (CHR ''o'')" by simp_all
  from sp pieces tr ends t nv same show ?thesis by simp
qed

text \<open>
  C5. At a scan position where a name is followed by \<open>=\<close> and a byte that is not a quote, the
  value captured is the longest run of bytes after the \<open>=\<close> that holds no space or tab and,
  unless the lower-cased name is \<open>no-cache\<close> or \<open>private\<close>, no comma: the scan stops at
  whitespace always and at a comma only for the other names. The value delivered to the sink
  with the name is the captured one without its last byte when that is a comma; the scan
  position moves to the end of the captured value.
\<close>

theorem unquoted_value_scan:
  assumes "\<not> isWhiteSpace (val ! index)" and "val ! index \<noteq> CHR '',''"
    and "scanToken val (Suc index) + 1 < length val"
    and "val ! scanToken val (Suc index) = CHR ''=''"
    and "val ! (scanToken val (Suc index) + 1) \<noteq> CHR 0x22"
  shows "parseCacheControlv_body ops d val index =
     (let tokenEnd = scanToken val (Suc index);
          token = ToLower (slice val index tokenEnd);
          captured = takeWhile
            (\<lambda>c. \<not> isWhiteSpace c \<and> (token = ''no-cache'' \<or> token = ''private'' \<or> c \<noteq> CHR '',''))
            (drop (tokenEnd + 1) val);
          value = (if captured \<noteq> [] \<and> last captured = CHR '','' then butlast captured
                   else captured)
      in case setPair ops d token value of
           Inl err \<Rightarrow> Inl err
         | Inr d' \<Rightarrow> Inr (d', tokenEnd + 1 + length captured))"
proof -
  let ?te = "scanToken val (Suc index)"
  let ?tok = "ToLower (slice val index ?te)"
  let ?r = "tokenRequireExtensionFields ?tok"
  let ?cap = "takeWhile (\<lambda>c. \<not> stops ?r c) (drop (?te + 1) val)"
  have p: "(\<lambda>c. \<not> isWhiteSpace c \<and> (?tok = ''no-cache'' \<or> ?tok = ''private'' \<or> c \<noteq> CHR '',''))
           = (\<lambda>c. \<not> stops ?r c)"
    by (auto simp: stops_def tokenRequireExtensionFields_def)
  have ve: "scanValue val ?r (?te + 1) = ?te + 1 + length ?cap"
    using assms(3) by (intro scanValue_takeWhile) simp
  have "slice val (?te + 1) (?te + 1 + length ?cap) = take (length ?cap) (drop (?te + 1) val)"
    by (simp add: slice_def)
  also have "\<dots> = ?cap" by (rule takeWhile_eq_take [symmetric])
  finally have sl: "slice val (?te + 1) (?te + 1 + length ?cap) = ?cap" .
  have "parseCacheControlv_body ops d val index =
     (let tokenEnd = ?te; token = ToLower (slice val index tokenEnd);
          valueEnd = scanValue val (tokenRequireExtensionFields token) (tokenEnd + 1);
          value0 = slice val (tokenEnd + 1) valueEnd;
          value = (if value0 \<noteq> [] \<and> last value0 = CHR '','' then butlast value0 else value0)
      in case setPair ops d token value of
           Inl err \<Rightarrow> Inl err
         | Inr d' \<Rightarrow> Inr (d', valueEnd))"
    using assms by (rule parseCacheControlv_body_unquoted)
  then have "parseCacheControlv_body ops d val index =
     (case setPair ops d ?tok (if ?cap \<noteq> [] \<and> last ?cap = CHR '','' then butlast ?cap else ?cap) of
        Inl err \<Rightarrow> Inl err
      | Inr d' \<Rightarrow> Inr (d', ?te + 1 + length ?cap))"
    unfolding Let_def ve sl .
  then show ?thesis unfolding Let_def p .
qed

theorem unquoted_value_scan_witness:
  "parseCacheControlv_body RequestCacheDirective_ops RequestCacheDirective_init
     ''private=a,b, c=d,e'' 0
     = Inr (RequestCacheDirective_init
              \<lparr>RequestCacheDirective.Extensions := [''private=a,b'']\<rparr>, 12) \<and>
   parseCacheControlv_body RequestCacheDirective_ops RequestCacheDirective_init
     ''private=a,b, c=d,e'' 13
     = Inr (RequestCacheDirective_init\<lparr>RequestCacheDirective.Extensions := [''c=d'']\<rparr>, 16)"
proof -
  let ?val = "''private=a,b, c=d,e''"
  have h0: "\<not> isWhiteSpace (?val ! 0) \<and> ?val ! 0 \<noteq> CHR '','' \<and>
            scanToken ?val (Suc 0) + 1 < length ?val \<and>
            ?val ! scanToken ?val (Suc 0) = CHR ''='' \<and>
            ?val ! (scanToken ?val (Suc 0) + 1) \<noteq> CHR 0x22 \<and> scanToken ?val (Suc 0) = 7"
    by code_simp
  have h13: "\<not> isWhiteSpace (?val ! 13) \<and> ?val ! 13 \<noteq> CHR '','' \<and>
            scanToken ?val (Suc 13) + 1 < length ?val \<and>
            ?val ! scanToken ?val (Suc 13) = CHR ''='' \<and>
            ?val ! (scanToken ?val (Suc 13) + 1) \<noteq> CHR 0x22 \<and> scanToken ?val (Suc 13) = 14"
    by code_simp
  have t: "ToLower ''private'' = ''private''" "ToLower ''c'' = ''c''"
    by (simp_all add: ToLower_def lower_byte_def)
  from h0 have a: "parseCacheControlv_body RequestCacheDirective_ops RequestCacheDirective_init ?val 0
      = Inr (RequestCacheDirective_init
               \<lparr>RequestCacheDirective.Extensions := [''private=a,b'']\<rparr>, 12)"
    using unquoted_value_scan [of ?val 0 RequestCacheDirective_ops RequestCacheDirective_init]
    by (simp add: Let_def slice_def t isWhiteSpace_def RequestCacheDirective_ops_def
          RequestCacheDirective_setPair_def RequestCacheDirective_init_def Header_defs)
  from h13 have b: "parseCacheControlv_body RequestCacheDirective_ops RequestCacheDirective_init ?val 13
      = Inr (RequestCacheDirective_init\<lparr>RequestCacheDirective.Extensions := [''c=d'']\<rparr>, 16)"
    using unquoted_value_scan [of ?val 13 RequestCacheDirective_ops RequestCacheDirective_init]
    by (simp add: Let_def slice_def t isWhiteSpace_def RequestCacheDirective_ops_def
          RequestCacheDirective_setPair_def RequestCacheDirective_init_def Header_defs)
  from a b show ?thesis by simp
qed

text \<open>
  C6. The name delivered to the sink is not always a run of token bytes: the loop that finds
  the end of the token starts one byte after the scan position, so the byte at the scan
  position is taken into the name whatever it is. On the input \<open>a;b\<close> the second name
  delivered is \<open>;b\<close>, which begins with the separator \<open>;\<close>, although no token byte stands at
  scan position 1.
\<close>

theorem name_begins_with_separator:
  "NewRequestCacheDirective ''a;b''
     = (Some (RequestCacheDirective_init
                \<lparr>RequestCacheDirective.Extensions := [''a'', '';b'']\<rparr>), None) \<and>
   parseCacheControlv_iter 1 RequestCacheDirective_ops RequestCacheDirective_init ''a;b'' 0
     = Inr (RequestCacheDirective_init\<lparr>RequestCacheDirective.Extensions := [''a'']\<rparr>, 1) \<and>
   ToLower (slice ''a;b'' 1 (scanToken ''a;b'' (Suc 1))) = '';b'' \<and>
   takeWhile isToken (drop 1 ''a;b'') = [] \<and>
   \<not> isToken (CHR '';'')"
  by code_simp

text \<open>
  C7. In every record that \<^verbatim>\<open>NewRequestCacheDirective\<close> returns, each of \<open>MaxAge\<close>,
  \<open>MaxStale\<close> and \<open>MinFresh\<close> is the sentinel \<open>-1\<close> or, read as a signed 32-bit number, a
  value from 0 to 2147483647.
\<close>

theorem request_age_fields_in_range:
  assumes "NewRequestCacheDirective value = (Some d, e)"
  shows "(RequestCacheDirective.MaxAge d = - 1 \<or>
            (0 \<le> sint (RequestCacheDirective.MaxAge d) \<and>
             sint (RequestCacheDirective.MaxAge d) \<le> 2147483647)) \<and>
         (MaxStale d = - 1 \<or> (0 \<le> sint (MaxStale d) \<and> sint (MaxStale d) \<le> 2147483647)) \<and>
         (MinFresh d = - 1 \<or> (0 \<le> sint (MinFresh d) \<and> sint (MinFresh d) \<le> 2147483647))"
proof -
  from assms
  have run: "parseCacheControlv_loop RequestCacheDirective_ops RequestCacheDirective_init value 0
             = Inr d"
    by (auto simp: NewRequestCacheDirective_def parseCacheControlv_def split: sum.splits)
  have init: "request_ages_ok RequestCacheDirective_init"
    by (simp add: request_ages_ok_def age_field_ok_def RequestCacheDirective_init_def)
  have "request_ages_ok d"
  proof (rule parseCacheControlv_loop_invariant
      [where P = request_ages_ok and ops = RequestCacheDirective_ops
         and d = RequestCacheDirective_init and val = "value" and index = 0])
    show "request_ages_ok RequestCacheDirective_init" by (rule init)
    show "parseCacheControlv_loop RequestCacheDirective_ops RequestCacheDirective_init value 0
          = Inr d" by (rule run)
  next
    fix d t d'
    assume "request_ages_ok d" and "setToken RequestCacheDirective_ops d t = Inr d'"
    then show "request_ages_ok d'"
      by (simp add: RequestCacheDirective_ops_def RequestCacheDirective_setToken_ages)
  next
    fix d k v d'
    assume "request_ages_ok d" and "setPair RequestCacheDirective_ops d k v = Inr d'"
    then show "request_ages_ok d'"
      by (simp add: RequestCacheDirective_ops_def RequestCacheDirective_setPair_ages)
  qed
  then show ?thesis by (simp add: request_ages_ok_def age_field_ok_def)
qed

theorem request_age_fields_in_range_witness:
  "NewRequestCacheDirective ''max-age=5, max-stale=99999999999''
     = (Some (RequestCacheDirective_init
               \<lparr>RequestCacheDirective.MaxAge := 5, MaxStale := 2147483647\<rparr>), None) \<and>
   sint (5 :: 32 word) = 5 \<and> sint (2147483647 :: 32 word) = 2147483647 \<and>
   MinFresh (RequestCacheDirective_init
               \<lparr>RequestCacheDirective.MaxAge := 5, MaxStale := 2147483647\<rparr>) = - 1"
proof -
  let ?d = "RequestCacheDirective_init\<lparr>RequestCacheDirective.MaxAge := 5, MaxStale := 2147483647\<rparr>"
  have h: "NewRequestCacheDirective ''max-age=5, max-stale=99999999999'' = (Some ?d, None)"
    by code_simp
  from request_age_fields_in_range [OF h]
  have "MinFresh ?d = - 1 \<or> (0 \<le> sint (MinFresh ?d) \<and> sint (MinFresh ?d) \<le> 2147483647)"
    by blast
  with h show ?thesis by (simp add: RequestCacheDirective_init_def)
qed

text \<open>
  C8. Both parse functions terminate. One iteration of the tokenizer's loop moves the scan
  position strictly forward and never past the end of the input; on a quoted value it moves
  at least two bytes past the start of the value. A quoted-string parse that does not fail
  consumes between two bytes and the whole of the string it was given, and its loop returns
  within as many evaluations of its condition as the string has bytes. The tokenizer's loop
  has returned after as many iterations as the input has bytes, for any sink and so for both
  constructors.
\<close>

theorem parse_terminates:
  fixes ops :: "'d directive"
  shows
  "(index < length val \<and> parseCacheControlv_body ops d val index = Inr (d', index')
      \<longrightarrow> index < index' \<and> index' \<le> length val) \<and>
   (index < length val \<and> parseCacheControlv_body ops d val index = Inr (d', index') \<and>
    \<not> isWhiteSpace (val ! index) \<and> val ! index \<noteq> CHR '','' \<and>
    val ! scanToken val (Suc index) = CHR ''='' \<and>
    scanToken val (Suc index) + 1 < length val \<and> val ! (scanToken val (Suc index) + 1) = CHR 0x22
      \<longrightarrow> scanToken val (Suc index) + 1 + 2 \<le> index') \<and>
   (parseQuotedString raw = Inr (eaten, v)
      \<longrightarrow> eaten = - 1 \<or> (2 \<le> eaten \<and> eaten \<le> int (length raw))) \<and>
   parseQuotedString_fuel (length (q # rest)) (q # rest) 1 []
     = Some (parseQuotedString_loop (q # rest) 1 []) \<and>
   (case parseCacheControlv_iter (length val) ops d val 0 of
      Inl err \<Rightarrow> parseCacheControlv ops d val = Inl err
    | Inr (d1, i1) \<Rightarrow> length val \<le> i1 \<and> parseCacheControlv ops d val = Inr d1) \<and>
   (case parseCacheControlv_iter (length val) RequestCacheDirective_ops
           RequestCacheDirective_init val 0 of
      Inl err \<Rightarrow> NewRequestCacheDirective val = (None, Some err)
    | Inr (d1, i1) \<Rightarrow> NewRequestCacheDirective val = (Some d1, None)) \<and>
   (case parseCacheControlv_iter (length val) ResponseCacheDirective_ops
           ResponseCacheDirective_init val 0 of
      Inl err \<Rightarrow> NewResponseCacheDirective val = (None, Some err)
    | Inr (d1, i1) \<Rightarrow> NewResponseCacheDirective val = (Some d1, None))"
proof (intro conjI impI)
  assume a: "index < length val \<and> parseCacheControlv_body ops d val index = Inr (d', index')"
  then show "index < index'" by (auto dest: parseCacheControlv_body_advances)
  from a show "index' \<le> length val" by (auto dest: parseCacheControlv_body_bound)
next
  let ?te = "scanToken val (Suc index)"
  assume a: "index < length val \<and> parseCacheControlv_body ops d val index = Inr (d', index') \<and>
    \<not> isWhiteSpace (val ! index) \<and> val ! index \<noteq> CHR '','' \<and>
    val ! ?te = CHR ''='' \<and> ?te + 1 < length val \<and> val ! (?te + 1) = CHR 0x22"
  then have eq: "parseCacheControlv_body ops d val index =
     (case parseQuotedString (drop (?te + 1) val) of
        Inl e \<Rightarrow> Inl e
      | Inr (eaten, value) \<Rightarrow>
          if eaten = - 1 then Inl ErrMissingClosingQuote
          else (case setPair ops d (ToLower (slice val index ?te)) value of
                  Inl err \<Rightarrow> Inl err
                | Inr d' \<Rightarrow> Inr (d', nat (int (?te + 1) + eaten))))"
    using parseCacheControlv_body_quoted [of val index ops d] by (simp add: Let_def)
  show "?te + 1 + 2 \<le> index'"
  proof (cases "parseQuotedString (drop (?te + 1) val)")
    case (Inl e)
    with eq a show ?thesis by simp
  next
    case (Inr p)
    obtain eaten v where p: "p = (eaten, v)" by (cases p)
    from eq a Inr p have ne: "eaten \<noteq> - 1" by auto
    with eq a Inr p
    have "(case setPair ops d (ToLower (slice val index ?te)) v of
             Inl err \<Rightarrow> Inl err
           | Inr d' \<Rightarrow> Inr (d', nat (int (?te + 1) + eaten))) = Inr (d', index')"
      by simp
    then have "index' = nat (int (?te + 1) + eaten)" by (rule sink_result_index)
    moreover from parseQuotedString_bounds Inr p ne have "2 \<le> eaten" by blast
    ultimately show ?thesis by simp
  qed
next
  assume "parseQuotedString raw = Inr (eaten, v)"
  then show "eaten = - 1 \<or> (2 \<le> eaten \<and> eaten \<le> int (length raw))"
    by (rule parseQuotedString_bounds)
next
  show "parseQuotedString_fuel (length (q # rest)) (q # rest) 1 []
     = Some (parseQuotedString_loop (q # rest) 1 [])"
    using parseQuotedString_fuel_enough [of "q # rest" 1 "length rest" "[]"] by simp
next
  show "case parseCacheControlv_iter (length val) ops d val 0 of
      Inl err \<Rightarrow> parseCacheControlv ops d val = Inl err
    | Inr (d1, i1) \<Rightarrow> length val \<le> i1 \<and> parseCacheControlv ops d val = Inr d1"
    by (rule parseCacheControlv_iter_exit)
next
  show "case parseCacheControlv_iter (length val) RequestCacheDirective_ops
           RequestCacheDirective_init val 0 of
      Inl err \<Rightarrow> NewRequestCacheDirective val = (None, Some err)
    | Inr (d1, i1) \<Rightarrow> NewRequestCacheDirective val = (Some d1, None)"
    using parseCacheControlv_iter_exit
      [where val = val and ops = RequestCacheDirective_ops and d = RequestCacheDirective_init]
    by (auto simp: NewRequestCacheDirective_def split: sum.splits)
next
  show "case parseCacheControlv_iter (length val) ResponseCacheDirective_ops
           ResponseCacheDirective_init val 0 of
      Inl err \<Rightarrow> NewResponseCacheDirective val = (None, Some err)
    | Inr (d1, i1) \<Rightarrow> NewResponseCacheDirective val = (Some d1, None)"
    using parseCacheControlv_iter_exit
      [where val = val and ops = ResponseCacheDirective_ops and d = ResponseCacheDirective_init]
    by (auto simp: NewResponseCacheDirective_def split: sum.splits)
qed

theorem parse_terminates_witness:
  "(0 < length [CHR ''a'', CHR ''='', CHR 0x22, CHR ''b'', CHR 0x22] \<and>
    parseCacheControlv_body RequestCacheDirective_ops RequestCacheDirective_init
      [CHR ''a'', CHR ''='', CHR 0x22, CHR ''b'', CHR 0x22] 0
    = Inr (RequestCacheDirective_init\<lparr>RequestCacheDirective.Extensions := [''a=b'']\<rparr>, 5) \<and>
    \<not> isWhiteSpace ([CHR ''a'', CHR ''='', CHR 0x22, CHR ''b'', CHR 0x22] ! 0) \<and>
    [CHR ''a'', CHR ''='', CHR 0x22, CHR ''b'', CHR 0x22] ! 0 \<noteq> CHR '','' \<and>
    [CHR ''a'', CHR ''='', CHR 0x22, CHR ''b'', CHR 0x22]
      ! scanToken [CHR ''a'', CHR ''='', CHR 0x22, CHR ''b'', CHR 0x22] (Suc 0) = CHR ''='' \<and>
    scanToken [CHR ''a'', CHR ''='', CHR 0x22, CHR ''b'', CHR 0x22] (Suc 0) + 1
      < length [CHR ''a'', CHR ''='', CHR 0x22, CHR ''b'', CHR 0x22] \<and>
    [CHR ''a'', CHR ''='', CHR 0x22, CHR ''b'', CHR 0x22]
      ! (scanToken [CHR ''a'', CHR ''='', CHR 0x22, CHR ''b'', CHR 0x22] (Suc 0) + 1) = CHR 0x22) \<and>
   ((0 :: nat) < 5 \<and> 5 \<le> length [CHR ''a'', CHR ''='', CHR 0x22, CHR ''b'', CHR 0x22]) \<and>
   scanToken [CHR ''a'', CHR ''='', CHR 0x22, CHR ''b'', CHR 0x22] (Suc 0) + 1 + 2 \<le> 5 \<and>
   parseQuotedString [CHR 0x22, CHR ''b'', CHR 0x22] = Inr (3, ''b'') \<and>
   ((3 :: int) = - 1 \<or> (2 \<le> (3 :: int) \<and> 3 \<le> int (length [CHR 0x22, CHR ''b'', CHR 0x22])))"
proof -
  let ?val = "[CHR ''a'', CHR ''='', CHR 0x22, CHR ''b'', CHR 0x22]"
  let ?d1 = "RequestCacheDirective_init\<lparr>RequestCacheDirective.Extensions := [''a=b'']\<rparr>"
  have h1: "0 < length ?val \<and>
    parseCacheControlv_body RequestCacheDirective_ops RequestCacheDirective_init ?val 0
      = Inr (?d1, 5) \<and>
    \<not> isWhiteSpace (?val ! 0) \<and> ?val ! 0 \<noteq> CHR '','' \<and>
    ?val ! scanToken ?val (Suc 0) = CHR ''='' \<and>
    scanToken ?val (Suc 0) + 1 < length ?val \<and>
    ?val ! (scanToken ?val (Suc 0) + 1) = CHR 0x22"
    by code_simp
  have h2: "parseQuotedString [CHR 0x22, CHR ''b'', CHR 0x22] = Inr (3, ''b'')"
    by code_simp
  note T = parse_terminates [where index = 0 and val = ?val and ops = RequestCacheDirective_ops
      and d = RequestCacheDirective_init and d' = ?d1 and index' = 5
      and raw = "[CHR 0x22, CHR ''b'', CHR 0x22]" and eaten = 3 and v = "''b''"]
  from T h1 have c1: "(0 :: nat) < 5 \<and> 5 \<le> length ?val" by blast
  from T h1 have c2: "scanToken ?val (Suc 0) + 1 + 2 \<le> 5" by blast
  from T h2 have c3: "(3 :: int) = - 1 \<or> (2 \<le> (3 :: int) \<and> 3 \<le> int (length [CHR 0x22, CHR ''b'', CHR 0x22]))"
    by blast
  from h1 h2 c1 c2 c3 show ?thesis by blast
qed

text \<open>
  C9. When the loop of \<^verbatim>\<open>NewRequestCacheDirective\<close> reaches, with no directive before it
  rejected, a scan position from which the rest of the input is a directive name (a non-empty
  run of token bytes) that the request sink does not recognise, followed by \<open>=\<close> as the last
  byte, the constructor returns no error, and the extensions end with two more entries: the
  name in lower case, and then the string \<open>=\<close>. With the scan position 0 the input is the
  name and \<open>=\<close> alone.
\<close>

theorem trailing_equals_is_a_token:
  assumes "name \<noteq> []" and "\<forall>c \<in> set name. isToken c"
    and "ToLower name \<notin> {HeaderMaxAge, HeaderMaxStale, HeaderMinFresh, HeaderNoCache,
                           HeaderNoStore, HeaderOnlyIfCached}"
    and "parseCacheControlv_iter m RequestCacheDirective_ops RequestCacheDirective_init val 0
           = Inr (d, index)"
    and "drop index val = name @ ''=''"
  shows "NewRequestCacheDirective val =
           (Some (d\<lparr>RequestCacheDirective.Extensions :=
                      RequestCacheDirective.Extensions d @ [ToLower name, ''='']\<rparr>), None)"
proof -
  have "parseCacheControlv RequestCacheDirective_ops RequestCacheDirective_init val
        = parseCacheControlv_loop RequestCacheDirective_ops d val index"
    using assms(4) by (rule parseCacheControlv_iter_reach)
  also have "\<dots> =
     (case setToken RequestCacheDirective_ops d (ToLower name) of
        Inl err \<Rightarrow> Inl err
      | Inr d1 \<Rightarrow> setToken RequestCacheDirective_ops d1 ''='')"
    using assms(1,2,5) by (rule parseCacheControlv_loop_name_equals)
  also have "\<dots> = Inr (d\<lparr>RequestCacheDirective.Extensions :=
                            RequestCacheDirective.Extensions d @ [ToLower name, ''='']\<rparr>)"
    using assms(3)
    by (simp add: RequestCacheDirective_ops_def RequestCacheDirective_setToken_def Header_defs)
  finally show ?thesis by (simp add: NewRequestCacheDirective_def)
qed

theorem trailing_equals_is_a_token_witness:
  "NewRequestCacheDirective ''foo=''
     = (Some (RequestCacheDirective_init
                \<lparr>RequestCacheDirective.Extensions := [''foo'', ''='']\<rparr>), None) \<and>
   NewRequestCacheDirective ''no-store, Foo=''
     = (Some (RequestCacheDirective_init
                \<lparr>RequestCacheDirective.NoStore := True,
                 RequestCacheDirective.Extensions := [''foo'', ''='']\<rparr>), None)"
proof -
  have n1: "''foo'' \<noteq> [] \<and> (\<forall>c \<in> set ''foo''. isToken c) \<and>
            ToLower ''foo'' \<notin> {HeaderMaxAge, HeaderMaxStale, HeaderMinFresh, HeaderNoCache,
                                 HeaderNoStore, HeaderOnlyIfCached} \<and> ToLower ''foo'' = ''foo''"
    by code_simp
  have n2: "''Foo'' \<noteq> [] \<and> (\<forall>c \<in> set ''Foo''. isToken c) \<and>
            ToLower ''Foo'' \<notin> {HeaderMaxAge, HeaderMaxStale, HeaderMinFresh, HeaderNoCache,
                                 HeaderNoStore, HeaderOnlyIfCached} \<and> ToLower ''Foo'' = ''foo''"
    by code_simp
  have r1: "parseCacheControlv_iter 0 RequestCacheDirective_ops RequestCacheDirective_init
              ''foo='' 0 = Inr (RequestCacheDirective_init, 0)" by simp
  have r2: "parseCacheControlv_iter 3 RequestCacheDirective_ops RequestCacheDirective_init
              ''no-store, Foo='' 0
            = Inr (RequestCacheDirective_init\<lparr>RequestCacheDirective.NoStore := True\<rparr>, 10)"
    by code_simp
  have d1: "drop 0 ''foo='' = ''foo'' @ ''=''" and d2: "drop 10 ''no-store, Foo='' = ''Foo'' @ ''=''"
    by simp_all
  from n1 have a: "NewRequestCacheDirective ''foo='' =
     (Some (RequestCacheDirective_init
              \<lparr>RequestCacheDirective.Extensions :=
                 RequestCacheDirective.Extensions RequestCacheDirective_init @ [''foo'', ''='']\<rparr>),
      None)"
    using trailing_equals_is_a_token [OF _ _ _ r1 d1] by metis
  from n2 have b: "NewRequestCacheDirective ''no-store, Foo='' =
     (Some (RequestCacheDirective_init
              \<lparr>RequestCacheDirective.NoStore := True,
               RequestCacheDirective.Extensions :=
                 RequestCacheDirective.Extensions
                   (RequestCacheDirective_init\<lparr>RequestCacheDirective.NoStore := True\<rparr>)
                 @ [''foo'', ''='']\<rparr>),
      None)"
    using trailing_equals_is_a_token [OF _ _ _ r2 d2] by metis
  from a b show ?thesis by (simp add: RequestCacheDirective_init_def)
qed

text \<open>
  An input that ends with such a name and \<open>=\<close> is rejected when a directive before the name
  is; a name that follows another byte than space, tab or comma is not scanned from its first
  byte; and a name with upper-case letters is stored in lower case.
\<close>

theorem trailing_equals_counterexample:
  "NewRequestCacheDirective ''max-age, foo='' = (None, Some ErrMaxAgeDeltaSeconds) \<and>
   NewRequestCacheDirective ''x/foo=''
     = (Some (RequestCacheDirective_init
                \<lparr>RequestCacheDirective.Extensions := [''x'', ''/foo'', ''='']\<rparr>), None) \<and>
   NewRequestCacheDirective ''Foo=''
     = (Some (RequestCacheDirective_init
                \<lparr>RequestCacheDirective.Extensions := [''foo'', ''='']\<rparr>), None)"
  by code_simp

text \<open>
  C10. For the response sink, \<open>no-cache\<close> or \<open>private\<close> with a value that is empty or holds
  only spaces and tabs makes the field-name map non-\<^verbatim>\<open>nil\<close> and stores \<open>true\<close> under the empty
  string, next to the keys the map already had. Once the loop of
  \<^verbatim>\<open>NewResponseCacheDirective\<close> is in a state that such a call produced, every record the
  constructor returns has a non-\<^verbatim>\<open>nil\<close> map with the empty string as a key.
\<close>

theorem empty_value_gives_empty_key:
  assumes "\<forall>c \<in> set v. isWhiteSpace c"
  shows
    "ResponseCacheDirective_setPair d ''no-cache'' v =
       Inr (d\<lparr>NoCachePresent := True,
              ResponseCacheDirective.NoCache :=
                Some ((make_if_nil (ResponseCacheDirective.NoCache d))([] \<mapsto> True))\<rparr>) \<and>
     ResponseCacheDirective_setPair d ''private'' v =
       Inr (d\<lparr>PrivatePresent := True,
              Private := Some ((make_if_nil (Private d))([] \<mapsto> True))\<rparr>) \<and>
     (parseCacheControlv_iter m ResponseCacheDirective_ops ResponseCacheDirective_init val 0
        = Inr (d1, i1) \<and>
      NewResponseCacheDirective val = (Some d', e) \<longrightarrow>
        (ResponseCacheDirective_setPair d0 ''no-cache'' v = Inr d1
           \<longrightarrow> has_empty_key (ResponseCacheDirective.NoCache d')) \<and>
        (ResponseCacheDirective_setPair d0 ''private'' v = Inr d1
           \<longrightarrow> has_empty_key (Private d')))"
proof -
  have upd: "(\<lambda>k. if k \<in> field_names v then Some True else mp k) = mp([] \<mapsto> True)" for mp
    by (rule ext) (simp add: field_names_whitespace [OF assms])
  have nc: "ResponseCacheDirective_setPair x ''no-cache'' v =
       Inr (x\<lparr>NoCachePresent := True,
              ResponseCacheDirective.NoCache :=
                Some ((make_if_nil (ResponseCacheDirective.NoCache x))([] \<mapsto> True))\<rparr>)" for x
    by (simp add: ResponseCacheDirective_setPair_def Header_defs set_fields_names upd)
  have pv: "ResponseCacheDirective_setPair x ''private'' v =
       Inr (x\<lparr>PrivatePresent := True,
              Private := Some ((make_if_nil (Private x))([] \<mapsto> True))\<rparr>)" for x
    by (simp add: ResponseCacheDirective_setPair_def Header_defs set_fields_names upd)
  have final: "parseCacheControlv_loop ResponseCacheDirective_ops d1 val i1 = Inr d'"
    if "parseCacheControlv_iter m ResponseCacheDirective_ops ResponseCacheDirective_init val 0
          = Inr (d1, i1)"
      and "NewResponseCacheDirective val = (Some d', e)"
    using parseCacheControlv_iter_reach [OF that(1)] that(2)
    by (auto simp: NewResponseCacheDirective_def split: sum.splits)
  show ?thesis
  proof (intro conjI impI)
    show "ResponseCacheDirective_setPair d ''no-cache'' v =
       Inr (d\<lparr>NoCachePresent := True,
              ResponseCacheDirective.NoCache :=
                Some ((make_if_nil (ResponseCacheDirective.NoCache d))([] \<mapsto> True))\<rparr>)"
      by (rule nc)
    show "ResponseCacheDirective_setPair d ''private'' v =
       Inr (d\<lparr>PrivatePresent := True,
              Private := Some ((make_if_nil (Private d))([] \<mapsto> True))\<rparr>)"
      by (rule pv)
  next
    assume r: "parseCacheControlv_iter m ResponseCacheDirective_ops ResponseCacheDirective_init
                 val 0 = Inr (d1, i1) \<and>
               NewResponseCacheDirective val = (Some d', e)"
      and s: "ResponseCacheDirective_setPair d0 ''no-cache'' v = Inr d1"
    from s nc [of d0] have "has_empty_key (ResponseCacheDirective.NoCache d1)"
      by (auto simp: has_empty_key_def)
    with r final show "has_empty_key (ResponseCacheDirective.NoCache d')"
      by (blast intro: response_keeps_empty_key(1))
  next
    assume r: "parseCacheControlv_iter m ResponseCacheDirective_ops ResponseCacheDirective_init
                 val 0 = Inr (d1, i1) \<and>
               NewResponseCacheDirective val = (Some d', e)"
      and s: "ResponseCacheDirective_setPair d0 ''private'' v = Inr d1"
    from s pv [of d0] have "has_empty_key (Private d1)"
      by (auto simp: has_empty_key_def)
    with r final show "has_empty_key (Private d')"
      by (blast intro: response_keeps_empty_key(2))
  qed
qed

theorem empty_value_gives_empty_key_witness:
  "NewResponseCacheDirective (''no-cache='' @ [CHR 0x22, CHR 0x22] @ '', public'')
     = (Some (ResponseCacheDirective_init
                \<lparr>NoCachePresent := True,
                 ResponseCacheDirective.NoCache := Some [[] \<mapsto> True],
                 Public := True\<rparr>), None) \<and>
   has_empty_key (ResponseCacheDirective.NoCache
     (ResponseCacheDirective_init
        \<lparr>NoCachePresent := True,
         ResponseCacheDirective.NoCache := Some [[] \<mapsto> True],
         Public := True\<rparr>))"
proof -
  let ?val = "''no-cache='' @ [CHR 0x22, CHR 0x22] @ '', public''"
  let ?d1 = "ResponseCacheDirective_init
               \<lparr>NoCachePresent := True, ResponseCacheDirective.NoCache := Some [[] \<mapsto> True]\<rparr>"
  let ?d' = "ResponseCacheDirective_init
               \<lparr>NoCachePresent := True, ResponseCacheDirective.NoCache := Some [[] \<mapsto> True],
                Public := True\<rparr>"
  have ws: "\<forall>c \<in> set ([] :: string). isWhiteSpace c" by simp
  note T = empty_value_gives_empty_key [OF ws]
  have sp: "ResponseCacheDirective_setPair ResponseCacheDirective_init ''no-cache'' [] = Inr ?d1"
    using T [THEN conjunct1, of ResponseCacheDirective_init]
    by (simp add: make_if_nil_def ResponseCacheDirective_init_def)
  have s: "Split [] = [[]]" and k: "CanonicalHeaderKey (TrimString []) = []" by code_simp+
  have r: "parseCacheControlv_iter 1 ResponseCacheDirective_ops ResponseCacheDirective_init ?val 0
             = Inr (?d1, 11)"
    by (simp add: eval_simps loop_eval_simps s k)
  have n: "NewResponseCacheDirective ?val = (Some ?d', None)"
    by (simp add: eval_simps loop_eval_simps s k)
  from T [THEN conjunct2, THEN conjunct2, THEN mp, OF conjI [OF r n], THEN conjunct1, THEN mp, OF sp]
  have "has_empty_key (ResponseCacheDirective.NoCache ?d')" .
  with n show ?thesis by (intro conjI)
qed

end
